theory Spec2Isabelle
  imports Complex_Main "HOL-Library.Word" "HOL-Library.Log_Nat"
begin

section \<open>JavaScript values used by the component\<close>

text \<open>
  A JavaScript string is a sequence of UTF-16 code units and \<open>.length\<close> counts code
  units, so a string is a list of 16-bit words. \<open>str\<close> writes an ASCII literal of the
  source as such a sequence.
\<close>

type_synonym jsstring = "16 word list"

definition str :: "string \<Rightarrow> jsstring" where
  "str s = map of_char s"

text \<open>
  A JavaScript number is an IEEE 754 double: a finite number, one of the two infinities
  or NaN. A finite number is kept as the rational it denotes; the doubles among the
  rationals are the multiples of \<open>2 powi q\<close> with a factor below \<open>2 ^ 53\<close> in absolute
  value, for \<open>q\<close> from \<open>- 1074\<close>, and below \<open>2 powi 1024\<close> in absolute value. Zero is
  unsigned and divides like \<open>+0\<close>; the sums of \<open>calculateTotals\<close> start from the literal
  \<open>0\<close> and add, so the divisor \<open>totalCalories\<close> is never \<open>-0\<close>.
\<close>

datatype jsnum = Num rat | PosInfinity | NegInfinity | NaN

subsection \<open>Rounding to the nearest double\<close>

text \<open>
  Every arithmetic operation of JavaScript returns the exact result rounded to the
  nearest double, a tie going to the double whose last bit is even, and a result that
  rounds to \<open>2 powi 1024\<close> or beyond in absolute value becomes an infinity.

  \<open>floor_log2 x\<close> is the exponent \<open>e\<close> with \<open>2 powi e \<le> x < 2 powi (e + 1)\<close>, for
  \<open>x > 0\<close>, computed from the bit lengths of numerator and denominator.
\<close>

definition floor_log2 :: "rat \<Rightarrow> int" where
  "floor_log2 x =
     (case quotient_of x of
        (p, q) \<Rightarrow> let k = bitlen p - bitlen q in if 2 powi k \<le> x then k else k - 1)"

text \<open>Rounding to the nearest integer, a tie going to the even one.\<close>

definition round_half_even :: "rat \<Rightarrow> int" where
  "round_half_even y =
     (let f = \<lfloor>y\<rfloor>; d = y - of_int f
      in if d < 1 / 2 then f else if 1 / 2 < d then f + 1 else if even f then f else f + 1)"

text \<open>The exponent of the smallest normal double, and the exponent where infinity begins.\<close>

definition e_min :: int where
  "e_min = - 1022"

definition e_inf :: int where
  "e_inf = 1024"

text \<open>
  The doubles around \<open>x\<close> are the multiples of \<open>2 powi ulp_exp x\<close>: 53 significant bits
  in the normal range, the fixed spacing \<open>2 powi (- 1074)\<close> in the subnormal range.
\<close>

definition ulp_exp :: "rat \<Rightarrow> int" where
  "ulp_exp x = max (floor_log2 \<bar>x\<bar>) e_min - 52"

definition round_double :: "rat \<Rightarrow> jsnum" where
  "round_double x =
     (if x = 0 then Num 0
      else let q = ulp_exp x;
               r = of_int (round_half_even (x / 2 powi q)) * 2 powi q
           in if 2 powi e_inf \<le> \<bar>r\<bar> then (if 0 < x then PosInfinity else NegInfinity)
              else Num r)"

text \<open>A value a JavaScript number can have: a finite one is its own rounding.\<close>

fun is_double :: "jsnum \<Rightarrow> bool" where
  "is_double (Num r) = (round_double r = Num r)"
| "is_double x = True"

text \<open>
  The grid of the subnormal spacing, on which every double lies; the unit
  roundoff, the relative error of a rounding in the normal range; and the absolute
  error of a rounding in the subnormal range.
\<close>

definition on_grid :: "rat \<Rightarrow> bool" where
  "on_grid r = (\<exists>k::int. r = of_int k * 2 powi (e_min - 52))"

definition unit_roundoff :: rat where
  "unit_roundoff = 1 / 2 ^ 53"

definition subnormal_error :: rat where
  "subnormal_error = 2 powi (e_min - 53)"

text \<open>A double that is not negative: zero, at least the smallest subnormal, or infinity.\<close>

fun nonneg_double :: "jsnum \<Rightarrow> bool" where
  "nonneg_double (Num r) = (r = 0 \<or> 2 powi (e_min - 52) \<le> r)"
| "nonneg_double PosInfinity = True"
| "nonneg_double x = False"

subsection \<open>The operators\<close>

text \<open>The operators \<open>+\<close>, \<open>*\<close>, \<open>/\<close> and \<open><\<close> of JavaScript on these values.\<close>

fun js_add :: "jsnum \<Rightarrow> jsnum \<Rightarrow> jsnum" where
  "js_add NaN y = NaN"
| "js_add x NaN = NaN"
| "js_add (Num a) (Num b) = round_double (a + b)"
| "js_add (Num a) y = y"
| "js_add x (Num b) = x"
| "js_add PosInfinity PosInfinity = PosInfinity"
| "js_add NegInfinity NegInfinity = NegInfinity"
| "js_add PosInfinity NegInfinity = NaN"
| "js_add NegInfinity PosInfinity = NaN"

fun js_mul :: "jsnum \<Rightarrow> jsnum \<Rightarrow> jsnum" where
  "js_mul NaN y = NaN"
| "js_mul x NaN = NaN"
| "js_mul (Num a) (Num b) = round_double (a * b)"
| "js_mul (Num a) PosInfinity =
     (if a = 0 then NaN else if 0 < a then PosInfinity else NegInfinity)"
| "js_mul (Num a) NegInfinity =
     (if a = 0 then NaN else if 0 < a then NegInfinity else PosInfinity)"
| "js_mul PosInfinity (Num b) =
     (if b = 0 then NaN else if 0 < b then PosInfinity else NegInfinity)"
| "js_mul NegInfinity (Num b) =
     (if b = 0 then NaN else if 0 < b then NegInfinity else PosInfinity)"
| "js_mul PosInfinity PosInfinity = PosInfinity"
| "js_mul NegInfinity NegInfinity = PosInfinity"
| "js_mul PosInfinity NegInfinity = NegInfinity"
| "js_mul NegInfinity PosInfinity = NegInfinity"

fun js_div :: "jsnum \<Rightarrow> jsnum \<Rightarrow> jsnum" where
  "js_div NaN y = NaN"
| "js_div x NaN = NaN"
| "js_div (Num a) (Num b) =
     (if b = 0 then (if a = 0 then NaN else if 0 < a then PosInfinity else NegInfinity)
      else round_double (a / b))"
| "js_div (Num a) PosInfinity = Num 0"
| "js_div (Num a) NegInfinity = Num 0"
| "js_div PosInfinity (Num b) = (if 0 \<le> b then PosInfinity else NegInfinity)"
| "js_div NegInfinity (Num b) = (if 0 \<le> b then NegInfinity else PosInfinity)"
| "js_div PosInfinity PosInfinity = NaN"
| "js_div PosInfinity NegInfinity = NaN"
| "js_div NegInfinity PosInfinity = NaN"
| "js_div NegInfinity NegInfinity = NaN"

fun js_lt :: "jsnum \<Rightarrow> jsnum \<Rightarrow> bool" where
  "js_lt NaN y = False"
| "js_lt x NaN = False"
| "js_lt (Num a) (Num b) = (a < b)"
| "js_lt (Num a) PosInfinity = True"
| "js_lt (Num a) NegInfinity = False"
| "js_lt PosInfinity y = False"
| "js_lt NegInfinity NegInfinity = False"
| "js_lt NegInfinity y = True"

text \<open>\<open>x >= y\<close> of JavaScript: false as soon as one side is NaN.\<close>

fun js_ge :: "jsnum \<Rightarrow> jsnum \<Rightarrow> bool" where
  "js_ge NaN y = False"
| "js_ge x NaN = False"
| "js_ge x y = (\<not> js_lt x y)"

fun isNaN :: "jsnum \<Rightarrow> bool" where
  "isNaN NaN = True"
| "isNaN x = False"

section \<open>The schema \<open>mealFormSchema\<close> and its validation\<close>

text \<open>
  \<open>type Meal = z.infer<typeof mealFormSchema>\<close>: the object the form submits and the
  ledger stores. At run time \<open>day\<close> is whatever string the form holds and the three
  macros are whatever number \<open>+e.target.value\<close> produced, NaN included; the schema is
  what restricts them.
\<close>

record Meal =
  day :: jsstring
  name :: jsstring
  protein :: jsnum
  carbs :: jsnum
  fat :: jsnum

text \<open>The option list of \<open>z.enum\<close> (line 17) and the constant \<open>DAYS\<close> (line 27).\<close>

definition day_enum :: "jsstring list" where
  "day_enum = [str ''monday'', str ''tuesday'', str ''wednesday'', str ''thursday'',
               str ''friday'', str ''saturday'', str ''sunday'']"

definition DAYS :: "jsstring list" where
  "DAYS = [str ''monday'', str ''tuesday'', str ''wednesday'', str ''thursday'',
           str ''friday'', str ''saturday'', str ''sunday'']"

text \<open>
  The schema is evaluated by the zod library (version 3, as \<open>zodResolver\<close> of
  \<open>@hookform/resolvers\<close> uses it). An issue of a failed parse carries the issue code
  and the path of the key it is about; the schema can raise three codes.
  In the words of the specification, \<open>InvalidDay\<close> is \<open>invalid_enum_value\<close> at
  \<open>day\<close>, \<open>NameTooShort\<close> is \<open>too_small\<close> at \<open>name\<close>, and \<open>NegativeMacro(field)\<close>
  is \<open>too_small\<close> at that macro's key.
\<close>

datatype key = Key_day | Key_name | Key_protein | Key_carbs | Key_fat

datatype ZodIssueCode = invalid_type | invalid_enum_value | too_small

record ZodIssue =
  code :: ZodIssueCode
  path :: key

definition InvalidDay :: ZodIssue where
  "InvalidDay = \<lparr>code = invalid_enum_value, path = Key_day\<rparr>"

definition NameTooShort :: ZodIssue where
  "NameTooShort = \<lparr>code = too_small, path = Key_name\<rparr>"

definition NegativeMacro :: "key \<Rightarrow> ZodIssue" where
  "NegativeMacro k = \<lparr>code = too_small, path = k\<rparr>"

text \<open>\<open>z.enum([...])\<close>: the string must be one of the options.\<close>

definition z_enum :: "jsstring \<Rightarrow> ZodIssue list" where
  "z_enum d = (if d \<in> set day_enum then [] else [InvalidDay])"

text \<open>\<open>z.string().min(2, ...)\<close>: too small when \<open>data.length < 2\<close>.\<close>

definition z_string_min2 :: "jsstring \<Rightarrow> ZodIssue list" where
  "z_string_min2 n = (if length n < 2 then [NameTooShort] else [])"

text \<open>
  \<open>z.number().min(0)\<close>: \<open>z.number()\<close> refuses NaN with \<open>invalid_type\<close> and runs no
  further check on it; otherwise the inclusive minimum is too small when \<open>data < 0\<close>.
  No maximum and no finiteness check is declared, so \<open>Infinity\<close> passes.
\<close>

definition z_number_min0 :: "key \<Rightarrow> jsnum \<Rightarrow> ZodIssue list" where
  "z_number_min0 k x =
     (if isNaN x then [\<lparr>code = invalid_type, path = k\<rparr>]
      else if js_lt x (Num 0) then [NegativeMacro k]
      else [])"

text \<open>
  The schema, as the function that parses a candidate (\<open>mealFormSchema.safeParse\<close>;
  \<open>validate\<close> in the specification): \<open>z.object\<close> parses every key in the order of
  the declaration and collects the issues of all of them; the parse succeeds with the
  object when there is none.
\<close>

definition mealFormSchema :: "Meal \<Rightarrow> ZodIssue list + Meal" where
  "mealFormSchema c =
     (let issues = z_enum (day c) @ z_string_min2 (name c) @
                   z_number_min0 Key_protein (protein c) @
                   z_number_min0 Key_carbs (carbs c) @
                   z_number_min0 Key_fat (fat c)
      in if issues = [] then Inr c else Inl issues)"

text \<open>
  \<open>zodResolver\<close> turns the issues into the form's \<open>errors\<close> object, one entry for
  each path: the first issue of a path is kept.
\<close>

fun parseErrorSchema :: "ZodIssue list \<Rightarrow> (key \<rightharpoonup> ZodIssueCode) \<Rightarrow> (key \<rightharpoonup> ZodIssueCode)" where
  "parseErrorSchema [] errs = errs"
| "parseErrorSchema (e # es) errs =
     parseErrorSchema es
       (case errs (path e) of None \<Rightarrow> errs(path e \<mapsto> code e) | Some t \<Rightarrow> errs)"

section \<open>The component \<open>MealPlanManager\<close>\<close>

text \<open>\<open>type WeeklyMeals = Record<Meal['day'], Meal[]>\<close>: an object, from keys to arrays.\<close>

type_synonym WeeklyMeals = "jsstring \<rightharpoonup> Meal list"

record MacroPercentages =
  protein_pct :: jsnum
  carbs_pct :: jsnum
  fat_pct :: jsnum

text \<open>
  The state of the component: the four \<open>useState\<close> cells and the \<open>errors\<close> of the
  form (\<open>form.formState.errors\<close>), which \<open>FormMessage\<close> shows under each field.
\<close>

record state =
  meals :: WeeklyMeals
  currentDay :: jsstring
  currentCalories :: jsnum
  macroPercentages :: MacroPercentages
  errors :: "key \<rightharpoonup> ZodIssueCode"

datatype error = TypeError

definition initialMeals :: WeeklyMeals where
  "initialMeals =
     [str ''monday'' \<mapsto> [], str ''tuesday'' \<mapsto> [], str ''wednesday'' \<mapsto> [],
      str ''thursday'' \<mapsto> [], str ''friday'' \<mapsto> [], str ''saturday'' \<mapsto> [],
      str ''sunday'' \<mapsto> []]"

definition initialState :: state where
  "initialState =
     \<lparr>meals = initialMeals,
      currentDay = str ''monday'',
      currentCalories = Num 0,
      macroPercentages = \<lparr>protein_pct = Num 0, carbs_pct = Num 0, fat_pct = Num 0\<rparr>,
      errors = Map.empty\<rparr>"

subsection \<open>\<open>calculateTotals\<close>\<close>

text \<open>\<open>dayMeals.reduce((sum, meal) => sum + meal.protein, 0)\<close> and its two siblings.\<close>

definition totalProtein :: "Meal list \<Rightarrow> jsnum" where
  "totalProtein dayMeals = foldl (\<lambda>sum meal. js_add sum (protein meal)) (Num 0) dayMeals"

definition totalCarbs :: "Meal list \<Rightarrow> jsnum" where
  "totalCarbs dayMeals = foldl (\<lambda>sum meal. js_add sum (carbs meal)) (Num 0) dayMeals"

definition totalFat :: "Meal list \<Rightarrow> jsnum" where
  "totalFat dayMeals = foldl (\<lambda>sum meal. js_add sum (fat meal)) (Num 0) dayMeals"

text \<open>\<open>totalProtein * 4 + totalCarbs * 4 + totalFat * 9\<close>\<close>

definition totalCalories :: "Meal list \<Rightarrow> jsnum" where
  "totalCalories dayMeals =
     js_add (js_add (js_mul (totalProtein dayMeals) (Num 4))
                    (js_mul (totalCarbs dayMeals) (Num 4)))
            (js_mul (totalFat dayMeals) (Num 9))"

text \<open>\<open>(totalProtein * 4 / totalCalories) * 100\<close> and its two siblings.\<close>

definition proteinPercentage :: "Meal list \<Rightarrow> jsnum" where
  "proteinPercentage dayMeals =
     js_mul (js_div (js_mul (totalProtein dayMeals) (Num 4)) (totalCalories dayMeals)) (Num 100)"

definition carbsPercentage :: "Meal list \<Rightarrow> jsnum" where
  "carbsPercentage dayMeals =
     js_mul (js_div (js_mul (totalCarbs dayMeals) (Num 4)) (totalCalories dayMeals)) (Num 100)"

definition fatPercentage :: "Meal list \<Rightarrow> jsnum" where
  "fatPercentage dayMeals =
     js_mul (js_div (js_mul (totalFat dayMeals) (Num 9)) (totalCalories dayMeals)) (Num 100)"

text \<open>
  \<open>calculateTotals(day)\<close> reads \<open>meals[day]\<close>, and sets \<open>currentCalories\<close> and
  \<open>macroPercentages\<close>, each percentage replaced by \<open>0\<close> when it is NaN. For a key the
  object does not have, \<open>meals[day]\<close> is \<open>undefined\<close> and \<open>.reduce\<close> throws.
\<close>

definition calculateTotals :: "jsstring \<Rightarrow> state \<Rightarrow> error + state" where
  "calculateTotals d s =
     (case meals s d of
        None \<Rightarrow> Inl TypeError
      | Some dayMeals \<Rightarrow>
          Inr (s\<lparr>currentCalories := totalCalories dayMeals,
                 macroPercentages :=
                   \<lparr>protein_pct = (if isNaN (proteinPercentage dayMeals) then Num 0
                                    else proteinPercentage dayMeals),
                    carbs_pct = (if isNaN (carbsPercentage dayMeals) then Num 0
                                  else carbsPercentage dayMeals),
                    fat_pct = (if isNaN (fatPercentage dayMeals) then Num 0
                                else fatPercentage dayMeals)\<rparr>\<rparr>))"

text \<open>\<open>useEffect(() => { calculateTotals(currentDay) }, [meals, currentDay])\<close>\<close>

definition useEffect :: "state \<Rightarrow> error + state" where
  "useEffect s = calculateTotals (currentDay s) s"

subsection \<open>\<open>onSubmit\<close> and the form\<close>

text \<open>
  \<open>onSubmit(values)\<close> replaces \<open>meals\<close> by a copy in which the key \<open>values.day\<close>
  holds a new array, the old one followed by \<open>values\<close>; spreading \<open>undefined\<close> (a key
  the object does not have) throws. \<open>form.reset()\<close> clears the form's errors.
\<close>

definition onSubmit :: "Meal \<Rightarrow> state \<Rightarrow> error + state" where
  "onSubmit values s =
     (case meals s (day values) of
        None \<Rightarrow> Inl TypeError
      | Some prev \<Rightarrow>
          Inr (s\<lparr>meals := (meals s)(day values \<mapsto> prev @ [values]),
                 errors := Map.empty\<rparr>))"

text \<open>
  \<open>form.handleSubmit(onSubmit)\<close> with \<open>resolver: zodResolver(mealFormSchema)\<close>: the
  submitted values are validated first; \<open>onSubmit\<close> runs on the parsed object only
  when validation found no issue, otherwise the form's errors are set and nothing else
  happens.
\<close>

definition handleSubmit :: "Meal \<Rightarrow> state \<Rightarrow> error + state" where
  "handleSubmit c s =
     (case mealFormSchema c of
        Inl issues \<Rightarrow> Inr (s\<lparr>errors := parseErrorSchema issues Map.empty\<rparr>)
      | Inr values \<Rightarrow> onSubmit values s)"

text \<open>\<open>onValueChange={(value) => setCurrentDay(value as Meal['day'])}\<close> of the tabs.\<close>

definition onValueChange :: "jsstring \<Rightarrow> state \<Rightarrow> state" where
  "onValueChange d s = s\<lparr>currentDay := d\<rparr>"

text \<open>
  The states the component can be in: it starts in \<open>initialState\<close>; the user submits
  the form or selects one of the seven tabs; the effect runs after a render.
\<close>

inductive reachable :: "state \<Rightarrow> bool" where
  init: "reachable initialState"
| submit: "reachable s \<Longrightarrow> handleSubmit c s = Inr s' \<Longrightarrow> reachable s'"
| select: "reachable s \<Longrightarrow> d \<in> set DAYS \<Longrightarrow> reachable (onValueChange d s)"
| effect: "reachable s \<Longrightarrow> useEffect s = Inr s' \<Longrightarrow> reachable s'"

text \<open>A sequence of calls of \<open>onSubmit\<close>, stopping at the first one that throws.\<close>

fun onSubmits :: "Meal list \<Rightarrow> state \<Rightarrow> error + state" where
  "onSubmits [] s = Inr s"
| "onSubmits (r # rs) s =
     (case onSubmit r s of Inl e \<Rightarrow> Inl e | Inr s' \<Rightarrow> onSubmits rs s')"

text \<open>
  The validation rules as a predicate on a stored record, and a ledger all of whose
  records satisfy them and lie under their own day.
\<close>

definition valid :: "Meal \<Rightarrow> bool" where
  "valid m =
     (day m \<in> set DAYS \<and> 2 \<le> length (name m) \<and>
      js_ge (protein m) (Num 0) \<and> js_ge (carbs m) (Num 0) \<and> js_ge (fat m) (Num 0))"

definition ledger_valid :: "WeeklyMeals \<Rightarrow> bool" where
  "ledger_valid ms = (\<forall>d xs. ms d = Some xs \<longrightarrow> (\<forall>m \<in> set xs. valid m \<and> day m = d))"

subsection \<open>The arrays behind \<open>meals\<close>\<close>

text \<open>
  In JavaScript the object \<open>meals\<close> holds, under each key, a reference to an array, and
  \<open>meals[day]\<close> (lines 59 and 218; \<open>mealsFor\<close> in the specification) evaluates to that
  reference: no copy is made and the type \<open>Meal[]\<close> is mutable. The heap is the list
  of the arrays allocated so far, an address is an index into it. \<open>stored\<close> is what
  the ledger holds: the contents behind each reference. The component itself never
  writes to an array it has stored: \<open>onSubmit\<close> allocates a new array and a new object.
  \<open>array_push\<close> is \<open>Array.prototype.push\<close>, the mutation a caller holding the
  reference could perform.
\<close>

type_synonym addr = nat

type_synonym heap = "Meal list list"

type_synonym WeeklyMealsRef = "jsstring \<rightharpoonup> addr"

definition deref :: "heap \<Rightarrow> addr \<Rightarrow> Meal list option" where
  "deref h a = (if a < length h then Some (h ! a) else None)"

definition initialHeap :: heap where
  "initialHeap = [[], [], [], [], [], [], []]"

definition initialMealsRef :: WeeklyMealsRef where
  "initialMealsRef =
     [str ''monday'' \<mapsto> 0, str ''tuesday'' \<mapsto> 1, str ''wednesday'' \<mapsto> 2,
      str ''thursday'' \<mapsto> 3, str ''friday'' \<mapsto> 4, str ''saturday'' \<mapsto> 5,
      str ''sunday'' \<mapsto> 6]"

definition mealsFor :: "WeeklyMealsRef \<Rightarrow> jsstring \<Rightarrow> addr option" where
  "mealsFor ms d = ms d"

definition stored :: "heap \<Rightarrow> WeeklyMealsRef \<Rightarrow> WeeklyMeals" where
  "stored h ms d = (case mealsFor ms d of None \<Rightarrow> None | Some a \<Rightarrow> deref h a)"

definition array_push :: "addr \<Rightarrow> Meal \<Rightarrow> heap \<Rightarrow> heap" where
  "array_push a m h = (if a < length h then h[a := h ! a @ [m]] else h)"

text \<open>
  \<open>onSubmit\<close> on references: \<open>[...prevMeals[values.day], values]\<close> is a new array at a
  new address, and the new object holds that address under \<open>values.day\<close>.
\<close>

definition onSubmit_ref :: "Meal \<Rightarrow> heap \<times> WeeklyMealsRef \<Rightarrow> error + heap \<times> WeeklyMealsRef" where
  "onSubmit_ref values hm =
     (case snd hm (day values) of
        None \<Rightarrow> Inl TypeError
      | Some a \<Rightarrow>
          (case deref (fst hm) a of
             None \<Rightarrow> Inl TypeError
           | Some prev \<Rightarrow>
               Inr (fst hm @ [prev @ [values]], (snd hm)(day values \<mapsto> length (fst hm)))))"

text \<open>Every reference of the object points into the heap.\<close>

definition wf_refs :: "heap \<Rightarrow> WeeklyMealsRef \<Rightarrow> bool" where
  "wf_refs h ms = (\<forall>d a. ms d = Some a \<longrightarrow> a < length h)"

subsection \<open>Example inputs\<close>

definition lunch :: Meal where
  "lunch = \<lparr>day = str ''monday'', name = str ''Lunch'',
            protein = Num 50, carbs = Num 50, fat = Num 20\<rparr>"

definition snack :: Meal where
  "snack = \<lparr>day = str ''monday'', name = str ''Snack'',
            protein = Num 10, carbs = Num 10, fat = Num 10\<rparr>"

definition water :: Meal where
  "water = \<lparr>day = str ''monday'', name = str ''Water'',
            protein = Num 0, carbs = Num 0, fat = Num 0\<rparr>"

definition feast :: Meal where
  "feast = \<lparr>day = str ''sunday'', name = str ''AB'',
            protein = Num (2 ^ 100), carbs = Num (2 ^ 1000), fat = Num 0\<rparr>"

definition whale :: Meal where
  "whale = \<lparr>day = str ''monday'', name = str ''Whale'',
            protein = Num (2 powi 1023), carbs = Num 0, fat = Num 0\<rparr>"

definition bulk :: Meal where
  "bulk = \<lparr>day = str ''monday'', name = str ''Bulk'',
           protein = Num (2 powi 53), carbs = Num 0, fat = Num 0\<rparr>"

definition crumb :: Meal where
  "crumb = \<lparr>day = str ''monday'', name = str ''Crumb'',
            protein = Num 1, carbs = Num 0, fat = Num 0\<rparr>"

definition mondayOf :: "Meal list \<Rightarrow> state" where
  "mondayOf ms = initialState\<lparr>meals := initialMeals(str ''monday'' \<mapsto> ms)\<rparr>"

section \<open>Rounding\<close>

lemma pow2_nat: "0 \<le> k \<Longrightarrow> (2::rat) ^ nat k = 2 powi k"
  by (simp add: power_int_def)

lemma floor_log2_bounds:
  assumes "0 < x"
  shows "2 powi (floor_log2 x) \<le> x \<and> x < 2 powi (floor_log2 x + 1)"
proof -
  obtain p q where pq: "quotient_of x = (p, q)" by (cases "quotient_of x")
  then have q: "0 < q" and x: "x = of_int p / of_int q"
    using quotient_of_denom_pos quotient_of_div by auto
  have p: "0 < p" using assms q x by (simp add: zero_less_divide_iff)
  define lp where "lp = bitlen p"
  define lq where "lq = bitlen q"
  have lp1: "1 \<le> lp" and lq1: "1 \<le> lq"
    using p q by (auto simp: lp_def lq_def bitlen_alt_def)
  have bp: "2 ^ nat (lp - 1) \<le> p" "p < 2 ^ nat lp"
    using bitlen_bounds [OF p] by (auto simp: lp_def)
  have bq: "2 ^ nat (lq - 1) \<le> q" "q < 2 ^ nat lq"
    using bitlen_bounds [OF q] by (auto simp: lq_def)
  have rp: "(2::rat) powi (lp - 1) \<le> of_int p" "of_int p < (2::rat) powi lp"
  proof -
    have "(of_int (2 ^ nat (lp - 1)) :: rat) \<le> of_int p"
      using bp(1) by (simp only: of_int_le_iff)
    then show "(2::rat) powi (lp - 1) \<le> of_int p"
      using lp1 by (simp add: power_int_def)
    have "(of_int p :: rat) < of_int (2 ^ nat lp)"
      using bp(2) by (simp only: of_int_less_iff)
    then show "of_int p < (2::rat) powi lp"
      using lp1 by (simp add: power_int_def)
  qed
  have rq: "(2::rat) powi (lq - 1) \<le> of_int q" "of_int q < (2::rat) powi lq"
  proof -
    have "(of_int (2 ^ nat (lq - 1)) :: rat) \<le> of_int q"
      using bq(1) by (simp only: of_int_le_iff)
    then show "(2::rat) powi (lq - 1) \<le> of_int q"
      using lq1 by (simp add: power_int_def)
    have "(of_int q :: rat) < of_int (2 ^ nat lq)"
      using bq(2) by (simp only: of_int_less_iff)
    then show "of_int q < (2::rat) powi lq"
      using lq1 by (simp add: power_int_def)
  qed
  have qpos: "(0::rat) < of_int q" using q by simp
  have lo: "(2::rat) powi (lp - lq - 1) < x"
  proof -
    have "(2::rat) powi (lp - lq - 1) * of_int q < 2 powi (lp - lq - 1) * 2 powi lq"
      using rq(2) by (intro mult_strict_left_mono) simp_all
    also have "\<dots> = 2 powi (lp - 1)"
      by (simp flip: power_int_add)
    also have "\<dots> \<le> of_int p" by (rule rp(1))
    finally show ?thesis
      using qpos by (simp add: x pos_less_divide_eq)
  qed
  have hi: "x < (2::rat) powi (lp - lq + 1)"
  proof -
    have "of_int p < (2::rat) powi lp" by (rule rp(2))
    also have "\<dots> = 2 powi (lp - lq + 1) * 2 powi (lq - 1)"
      by (simp flip: power_int_add)
    also have "\<dots> \<le> 2 powi (lp - lq + 1) * of_int q"
      using rq(1) by (intro mult_left_mono) simp_all
    finally show ?thesis
      using qpos by (simp add: x pos_divide_less_eq)
  qed
  show ?thesis
  proof (cases "2 powi (lp - lq) \<le> x")
    case True
    then have "floor_log2 x = lp - lq"
      by (simp add: floor_log2_def pq lp_def lq_def Let_def)
    with True hi show ?thesis by simp
  next
    case False
    then have "floor_log2 x = lp - lq - 1"
      by (simp add: floor_log2_def pq lp_def lq_def Let_def)
    with False lo show ?thesis by simp
  qed
qed

lemma floor_log2_unique:
  assumes "0 < x" and "2 powi e \<le> x" and "x < 2 powi (e + 1)"
  shows "floor_log2 x = e"
proof -
  let ?f = "floor_log2 x"
  note b = floor_log2_bounds [OF assms(1)]
  have "\<not> ?f < e"
  proof
    assume "?f < e"
    then have "?f + 1 \<le> e" by simp
    then have "(2::rat) powi (?f + 1) \<le> 2 powi e"
      by (intro power_int_increasing) simp_all
    with b assms(2) show False by linarith
  qed
  moreover have "\<not> e < ?f"
  proof
    assume "e < ?f"
    then have "e + 1 \<le> ?f" by simp
    then have "(2::rat) powi (e + 1) \<le> 2 powi ?f"
      by (intro power_int_increasing) simp_all
    with b assms(3) show False by linarith
  qed
  ultimately show ?thesis by simp
qed

lemma round_half_even_cases:
  "round_half_even y = \<lfloor>y\<rfloor> \<and> y - of_int \<lfloor>y\<rfloor> \<le> 1 / 2 \<or>
   round_half_even y = \<lfloor>y\<rfloor> + 1 \<and> 1 / 2 \<le> y - of_int \<lfloor>y\<rfloor>"
  unfolding round_half_even_def Let_def by auto

lemma round_half_even_error: "\<bar>of_int (round_half_even y) - y\<bar> \<le> 1 / 2"
proof -
  have f: "of_int \<lfloor>y\<rfloor> \<le> y" "y < of_int \<lfloor>y\<rfloor> + 1"
    by linarith+
  from round_half_even_cases [of y] show ?thesis
  proof
    assume "round_half_even y = \<lfloor>y\<rfloor> \<and> y - of_int \<lfloor>y\<rfloor> \<le> 1 / 2"
    with f show ?thesis by simp
  next
    assume "round_half_even y = \<lfloor>y\<rfloor> + 1 \<and> 1 / 2 \<le> y - of_int \<lfloor>y\<rfloor>"
    with f show ?thesis by simp
  qed
qed

lemma round_half_even_of_int [simp]: "round_half_even (of_int k) = k"
  by (simp add: round_half_even_def)

lemma round_half_even_ge:
  assumes "of_int k \<le> y"
  shows "k \<le> round_half_even y"
proof -
  have "k \<le> \<lfloor>y\<rfloor>" using assms by (simp add: le_floor_iff)
  then show ?thesis
    using round_half_even_cases [of y] by auto
qed

lemma round_half_even_le:
  assumes "y \<le> of_int k"
  shows "round_half_even y \<le> k"
proof -
  have f: "\<lfloor>y\<rfloor> \<le> k" using assms by (simp add: floor_le_iff) 
  from round_half_even_cases [of y] show ?thesis
  proof
    assume "round_half_even y = \<lfloor>y\<rfloor> \<and> y - of_int \<lfloor>y\<rfloor> \<le> 1 / 2"
    with f show ?thesis by simp
  next
    assume a: "round_half_even y = \<lfloor>y\<rfloor> + 1 \<and> 1 / 2 \<le> y - of_int \<lfloor>y\<rfloor>"
    then have "of_int \<lfloor>y\<rfloor> < y" by simp
    then have "of_int \<lfloor>y\<rfloor> < (of_int k :: rat)" using assms by simp
    then have "\<lfloor>y\<rfloor> < k" by (simp only: of_int_less_iff)
    with a show ?thesis by simp
  qed
qed

lemma ulp_exp_ge: "e_min - 52 \<le> ulp_exp x"
  by (simp add: ulp_exp_def)

lemma pow2_pos: "(0::rat) < 2 powi k"
  by simp

lemma pow2_mono: "a \<le> b \<Longrightarrow> (2::rat) powi a \<le> 2 powi b"
  by (intro power_int_increasing) simp_all

lemma pow2_double: "(2::rat) * 2 powi a = 2 powi (a + 1)"
  by (simp add: power_int_add)

lemma pow2_half: "1 / 2 * (2::rat) powi a = 2 powi (a - 1)"
  by (simp add: power_int_diff)

lemma round_double_nonzero:
  assumes "x \<noteq> 0"
  shows "round_double x =
     (let r = of_int (round_half_even (x / 2 powi ulp_exp x)) * 2 powi ulp_exp x
      in if 2 powi e_inf \<le> \<bar>r\<bar> then (if 0 < x then PosInfinity else NegInfinity) else Num r)"
  using assms by (simp add: round_double_def Let_def)

text \<open>The rounded value is within half a unit in the last place.\<close>

lemma rounded_error:
  "\<bar>of_int (round_half_even (x / 2 powi q)) * 2 powi q - x\<bar> \<le> 2 powi (q - 1)"
proof -
  let ?m = "of_int (round_half_even (x / 2 powi q)) :: rat"
  have "\<bar>?m - x / 2 powi q\<bar> \<le> 1 / 2"
    by (rule round_half_even_error)
  then have "\<bar>?m - x / 2 powi q\<bar> * 2 powi q \<le> 1 / 2 * 2 powi q"
    by (intro mult_right_mono) simp_all
  moreover have "\<bar>?m - x / 2 powi q\<bar> * 2 powi q = \<bar>?m * 2 powi q - x\<bar>"
  proof -
    have "\<bar>?m - x / 2 powi q\<bar> * 2 powi q = \<bar>(?m - x / 2 powi q) * 2 powi q\<bar>"
      by (simp add: abs_mult)
    also have "(?m - x / 2 powi q) * 2 powi q = ?m * 2 powi q - x"
      by (simp add: left_diff_distrib)
    finally show ?thesis .
  qed
  ultimately show ?thesis by (simp only: pow2_half)
qed

lemma round_double_error:
  assumes "round_double x = Num r"
  shows "\<bar>r - x\<bar> \<le> 2 powi (ulp_exp x - 1)"
proof (cases "x = 0")
  case True
  with assms show ?thesis by (simp add: round_double_def)
next
  case False
  with assms have "r = of_int (round_half_even (x / 2 powi ulp_exp x)) * 2 powi ulp_exp x"
    by (simp add: round_double_nonzero Let_def split: if_splits)
  then show ?thesis
    by (simp only: rounded_error)
qed

lemma floor_log2_abs:
  assumes "x \<noteq> 0"
  shows "2 powi floor_log2 \<bar>x\<bar> \<le> \<bar>x\<bar>" and "\<bar>x\<bar> < 2 powi (floor_log2 \<bar>x\<bar> + 1)"
  using floor_log2_bounds [of "\<bar>x\<bar>"] assms by simp_all

lemma floor_log2_ge:
  assumes "0 < x" and "2 powi e \<le> x"
  shows "e \<le> floor_log2 x"
proof (rule ccontr)
  assume "\<not> e \<le> floor_log2 x"
  then have "floor_log2 x + 1 \<le> e" by simp
  then have "(2::rat) powi (floor_log2 x + 1) \<le> 2 powi e"
    by (rule pow2_mono)
  with floor_log2_bounds [OF assms(1)] assms(2) show False by linarith
qed

lemma floor_log2_less:
  assumes "0 < x" and "x < 2 powi e"
  shows "floor_log2 x < e"
proof (rule ccontr)
  assume "\<not> floor_log2 x < e"
  then have "e \<le> floor_log2 x" by simp
  then have "(2::rat) powi e \<le> 2 powi floor_log2 x"
    by (rule pow2_mono)
  with floor_log2_bounds [OF assms(1)] assms(2) show False by linarith
qed

text \<open>Normal range: the error is relative.\<close>

lemma round_double_normal:
  assumes n: "2 powi e_min \<le> \<bar>x\<bar>" and r: "round_double x = Num r"
  shows "\<bar>r - x\<bar> \<le> unit_roundoff * \<bar>x\<bar>"
proof -
  have x0: "0 < \<bar>x\<bar>"
    using n pow2_pos [of e_min] by linarith
  then have x: "x \<noteq> 0" by simp
  let ?e = "floor_log2 \<bar>x\<bar>"
  have e: "e_min \<le> ?e"
    using floor_log2_ge [OF x0 n] .
  then have q: "ulp_exp x = ?e - 52"
    by (simp add: ulp_exp_def)
  have "\<bar>r - x\<bar> \<le> 2 powi (?e - 53)"
    using round_double_error [OF r] by (simp add: q)
  also have "(2::rat) powi (?e - 53) = unit_roundoff * 2 powi ?e"
    by (simp add: power_int_diff unit_roundoff_def)
  also have "\<dots> \<le> unit_roundoff * \<bar>x\<bar>"
    using floor_log2_abs(1) [OF x] by (intro mult_left_mono) (simp_all add: unit_roundoff_def)
  finally show ?thesis .
qed

text \<open>Subnormal range: the spacing is \<open>2 powi (e_min - 52)\<close>, and nothing overflows.\<close>

lemma ulp_exp_subnormal:
  assumes "x \<noteq> 0" and "\<bar>x\<bar> < 2 powi e_min"
  shows "ulp_exp x = e_min - 52"
proof -
  have "floor_log2 \<bar>x\<bar> < e_min"
    using assms by (intro floor_log2_less) simp_all
  then show ?thesis by (simp add: ulp_exp_def)
qed

lemma small_no_overflow:
  assumes "\<bar>r - x\<bar> \<le> (2::rat) powi (q - 1)" and "\<bar>x\<bar> < 2 powi (q + 53)"
    and "q + 54 \<le> e_inf"
  shows "\<not> 2 powi e_inf \<le> \<bar>r\<bar>"
proof -
  have "\<bar>r\<bar> \<le> \<bar>r - x\<bar> + \<bar>x\<bar>"
    by linarith
  also have "\<dots> < 2 powi (q - 1) + 2 powi (q + 53)"
    using assms(1,2) by simp
  also have "\<dots> \<le> 2 powi (q + 53) + 2 powi (q + 53)"
    using pow2_mono [of "q - 1" "q + 53"] by simp
  also have "\<dots> = 2 powi (q + 54)"
    using pow2_double [of "q + 53"] by (simp add: add.commute)
  also have "\<dots> \<le> 2 powi e_inf"
    using assms(3) by (rule pow2_mono)
  finally show ?thesis by simp
qed

lemma round_double_subnormal:
  assumes "\<bar>x\<bar> < 2 powi e_min"
  shows "\<exists>r. round_double x = Num r \<and> \<bar>r - x\<bar> \<le> subnormal_error"
proof (cases "x = 0")
  case True
  then show ?thesis by (simp add: round_double_def subnormal_error_def)
next
  case False
  let ?q = "e_min - 52"
  let ?r = "of_int (round_half_even (x / 2 powi ?q)) * 2 powi ?q :: rat"
  have q: "ulp_exp x = ?q"
    using False assms by (rule ulp_exp_subnormal)
  have err: "\<bar>?r - x\<bar> \<le> 2 powi (?q - 1)"
    by (rule rounded_error)
  have "\<bar>x\<bar> < 2 powi (?q + 53)"
    using assms pow2_mono [of e_min "?q + 53"] by simp
  then have "\<not> 2 powi e_inf \<le> \<bar>?r\<bar>"
    by (rule small_no_overflow [OF err]) (simp add: e_min_def e_inf_def)
  then have "round_double x = Num ?r"
    using False by (simp add: round_double_nonzero q Let_def)
  moreover have "\<bar>?r - x\<bar> \<le> subnormal_error"
    using err by (simp add: subnormal_error_def)
  ultimately show ?thesis by blast
qed

text \<open>A multiple of \<open>2 powi q\<close> is a multiple of \<open>2 powi j\<close> for \<open>j \<le> q\<close>.\<close>

lemma pow2_split:
  assumes "j \<le> q"
  shows "(2::rat) powi q = of_int (2 ^ nat (q - j)) * 2 powi j"
proof -
  have "(2::rat) powi q = 2 powi (q - j) * 2 powi j"
    by (simp flip: power_int_add)
  also have "(2::rat) powi (q - j) = of_int (2 ^ nat (q - j))"
    using assms by (simp add: power_int_def)
  finally show ?thesis .
qed

lemma round_double_on_grid:
  assumes "round_double x = Num r"
  shows "on_grid r"
proof (cases "x = 0")
  case True
  with assms have "r = of_int 0 * 2 powi (e_min - 52)"
    by (simp add: round_double_def)
  then show ?thesis unfolding on_grid_def by blast
next
  case False
  let ?q = "ulp_exp x"
  let ?m = "round_half_even (x / 2 powi ?q)"
  have "r = of_int ?m * 2 powi ?q"
    using assms False by (simp add: round_double_nonzero Let_def split: if_splits)
  also have "\<dots> = of_int ?m * (of_int (2 ^ nat (?q - (e_min - 52))) * 2 powi (e_min - 52))"
    using pow2_split [OF ulp_exp_ge [of x]] by simp
  also have "\<dots> = of_int (?m * 2 ^ nat (?q - (e_min - 52))) * 2 powi (e_min - 52)"
    by simp
  finally show ?thesis unfolding on_grid_def by blast
qed

text \<open>A number with at most 53 significant bits above the grid is its own rounding.\<close>

lemma round_double_representable:
  assumes x: "x = of_int m * 2 powi j" and m: "\<bar>m\<bar> < 2 ^ 53" and j: "e_min - 52 \<le> j"
    and fin: "\<bar>x\<bar> < 2 powi e_inf"
  shows "round_double x = Num x"
proof (cases "x = 0")
  case True
  then show ?thesis by (simp add: round_double_def)
next
  case False
  let ?q = "ulp_exp x"
  have "\<bar>x\<bar> = of_int \<bar>m\<bar> * 2 powi j"
    by (simp add: x abs_mult)
  also have "\<dots> < of_int (2 ^ 53) * 2 powi j"
    using m by (intro mult_strict_right_mono) (simp_all only: of_int_less_iff pow2_pos)
  also have "\<dots> = 2 powi (53 + j)"
    by (simp add: power_int_add)
  finally have "floor_log2 \<bar>x\<bar> < 53 + j"
    using False by (intro floor_log2_less) simp_all
  then have qj: "?q \<le> j"
    using j by (simp add: ulp_exp_def)
  have "x / 2 powi ?q = of_int m * (2 powi j / 2 powi ?q)"
    by (simp add: x)
  also have "(2::rat) powi j / 2 powi ?q = of_int (2 ^ nat (j - ?q))"
    using pow2_split [OF qj] by simp
  also have "of_int m * (of_int (2 ^ nat (j - ?q)) :: rat) = of_int (m * 2 ^ nat (j - ?q))"
    by simp
  finally have "of_int (round_half_even (x / 2 powi ?q)) * 2 powi ?q = x / 2 powi ?q * 2 powi ?q"
    by (simp only: round_half_even_of_int)
  also have "\<dots> = x" by simp
  finally have "of_int (round_half_even (x / 2 powi ?q)) * 2 powi ?q = x" .
  then show ?thesis
    using False fin by (simp add: round_double_nonzero Let_def)
qed

lemma round_double_grid_subnormal:
  assumes g: "on_grid x" and s: "\<bar>x\<bar> < 2 powi e_min"
  shows "round_double x = Num x"
proof -
  obtain k :: int where k: "x = of_int k * 2 powi (e_min - 52)"
    using g unfolding on_grid_def by blast
  have "of_int \<bar>k\<bar> * 2 powi (e_min - 52) = \<bar>x\<bar>"
    by (simp add: k abs_mult)
  also have "\<dots> < 2 powi e_min" by (rule s)
  also have "\<dots> = of_int (2 ^ 52) * 2 powi (e_min - 52)"
    using pow2_split [of "e_min - 52" e_min] by simp
  finally have "(of_int \<bar>k\<bar> :: rat) < of_int (2 ^ 52)"
    by (simp only: mult_less_cancel_right_pos pow2_pos)
  then have "\<bar>k\<bar> < 2 ^ 52" by (simp only: of_int_less_iff)
  then have k53: "\<bar>k\<bar> < 2 ^ 53" by simp
  have "\<bar>x\<bar> < 2 powi e_inf"
    using s pow2_mono [of e_min e_inf] by (simp add: e_min_def e_inf_def)
  then show ?thesis
    using k k53 by (intro round_double_representable [of x k "e_min - 52"]) simp_all
qed

text \<open>On the grid the error is relative in the whole range.\<close>

lemma round_double_grid:
  assumes "on_grid x" and "round_double x = Num r"
  shows "\<bar>r - x\<bar> \<le> unit_roundoff * \<bar>x\<bar>"
proof (cases "2 powi e_min \<le> \<bar>x\<bar>")
  case True
  then show ?thesis using assms(2) by (rule round_double_normal)
next
  case False
  then have "round_double x = Num x"
    using assms(1) by (intro round_double_grid_subnormal) simp_all
  with assms(2) show ?thesis by (simp add: unit_roundoff_def)
qed

lemma round_double_general:
  assumes "round_double x = Num r"
  shows "\<bar>r - x\<bar> \<le> unit_roundoff * \<bar>x\<bar> + subnormal_error"
proof (cases "2 powi e_min \<le> \<bar>x\<bar>")
  case True
  then have "\<bar>r - x\<bar> \<le> unit_roundoff * \<bar>x\<bar>" using assms by (rule round_double_normal)
  moreover have "0 \<le> subnormal_error" by (simp add: subnormal_error_def)
  ultimately show ?thesis by linarith
next
  case False
  then obtain r' where "round_double x = Num r'" "\<bar>r' - x\<bar> \<le> subnormal_error"
    using round_double_subnormal [of x] by auto
  moreover have "0 \<le> unit_roundoff * \<bar>x\<bar>" by (simp add: unit_roundoff_def)
  ultimately show ?thesis using assms by simp
qed

text \<open>Signs, and what does not overflow.\<close>

lemma round_double_not_NaN: "round_double x \<noteq> NaN"
  by (simp add: round_double_def Let_def)

lemma round_double_nonneg:
  assumes "0 \<le> x"
  shows "round_double x = PosInfinity \<or> (\<exists>r. round_double x = Num r \<and> 0 \<le> r)"
proof (cases "x = 0")
  case True
  then show ?thesis by (simp add: round_double_def)
next
  case False
  then have "0 \<le> x / 2 powi ulp_exp x"
    using assms by simp
  then have "of_int 0 \<le> x / 2 powi ulp_exp x" by simp
  then have "0 \<le> round_half_even (x / 2 powi ulp_exp x)"
    by (rule round_half_even_ge)
  then show ?thesis
    using False assms by (simp add: round_double_nonzero Let_def)
qed

lemma round_double_pos:
  assumes "2 powi (e_min - 52) \<le> x"
  shows "round_double x = PosInfinity \<or>
    (\<exists>r. round_double x = Num r \<and> 2 powi (e_min - 52) \<le> r)"
proof -
  have x0: "0 < x"
    using assms pow2_pos [of "e_min - 52"] by linarith
  let ?q = "ulp_exp x"
  let ?m = "round_half_even (x / 2 powi ?q)"
  have "2 powi ?q \<le> x"
  proof (cases "e_min \<le> floor_log2 x")
    case True
    then have "?q = floor_log2 x - 52"
      using x0 by (simp add: ulp_exp_def)
    then have "(2::rat) powi ?q \<le> 2 powi floor_log2 x"
      by (simp add: pow2_mono)
    with floor_log2_bounds [OF x0] show ?thesis by linarith
  next
    case False
    then have "?q = e_min - 52"
      using x0 by (simp add: ulp_exp_def)
    with assms show ?thesis by simp
  qed
  then have "of_int 1 \<le> x / 2 powi ?q"
    by (simp add: pos_le_divide_eq)
  then have "1 \<le> ?m"
    by (rule round_half_even_ge)
  then have "(of_int 1 :: rat) \<le> of_int ?m"
    by (simp only: of_int_le_iff)
  then have "of_int 1 * 2 powi ?q \<le> of_int ?m * (2::rat) powi ?q"
    by (intro mult_right_mono) simp_all
  then have "2 powi ?q \<le> of_int ?m * (2::rat) powi ?q"
    by simp
  moreover have "(2::rat) powi (e_min - 52) \<le> 2 powi ?q"
    using ulp_exp_ge by (rule pow2_mono)
  ultimately have "2 powi (e_min - 52) \<le> of_int ?m * (2::rat) powi ?q"
    by (rule order_trans [rotated])
  then show ?thesis
    using x0 by (simp add: round_double_nonzero Let_def)
qed

lemma round_double_finite:
  assumes "\<bar>x\<bar> < 2 powi (e_inf - 1)"
  shows "\<exists>r. round_double x = Num r"
proof (cases "x = 0")
  case True
  then show ?thesis by (simp add: round_double_def)
next
  case False
  let ?q = "ulp_exp x"
  let ?r = "of_int (round_half_even (x / 2 powi ?q)) * 2 powi ?q :: rat"
  have e: "floor_log2 \<bar>x\<bar> < e_inf - 1"
    using False assms by (intro floor_log2_less) simp_all
  have "floor_log2 \<bar>x\<bar> + 1 \<le> ?q + 53"
    by (simp add: ulp_exp_def)
  then have "(2::rat) powi (floor_log2 \<bar>x\<bar> + 1) \<le> 2 powi (?q + 53)"
    by (rule pow2_mono)
  then have x: "\<bar>x\<bar> < 2 powi (?q + 53)"
    using floor_log2_abs(2) [OF False] by linarith
  have q: "?q + 54 \<le> e_inf"
    using e by (simp add: ulp_exp_def e_min_def e_inf_def)
  have "\<not> 2 powi e_inf \<le> \<bar>?r\<bar>"
    by (rule small_no_overflow [OF rounded_error x q])
  then show ?thesis
    using False by (simp add: round_double_nonzero Let_def)
qed

text \<open>Whole numbers below \<open>2 ^ 53\<close> in absolute value are doubles.\<close>

lemma round_double_int:
  assumes "\<bar>m\<bar> < 2 ^ 53"
  shows "round_double (of_int m) = Num (of_int m)"
proof -
  have "\<bar>of_int m :: rat\<bar> = of_int \<bar>m\<bar>" by simp
  also have "\<dots> < of_int (2 ^ 53)"
    using assms by (simp only: of_int_less_iff)
  also have "\<dots> = 2 powi 53" by simp
  also have "\<dots> \<le> 2 powi e_inf"
    by (rule pow2_mono) (simp add: e_inf_def)
  finally have "\<bar>of_int m :: rat\<bar> < 2 powi e_inf" .
  then show ?thesis
    using assms by (intro round_double_representable [of _ m 0]) (simp_all add: e_min_def)
qed

lemma round_double_nat:
  assumes "n < 2 ^ 53"
  shows "round_double (of_nat n) = Num (of_nat n)"
proof -
  have "\<bar>int n\<bar> < 2 ^ 53" using assms by simp
  from round_double_int [OF this] show ?thesis by simp
qed

text \<open>What reaches \<open>2 powi e_inf\<close> becomes infinity.\<close>

lemma round_double_overflow:
  assumes "2 powi e_inf \<le> x"
  shows "round_double x = PosInfinity"
proof -
  have x0: "0 < x"
    using assms pow2_pos [of e_inf] by linarith
  let ?e = "floor_log2 x"
  let ?q = "ulp_exp x"
  let ?m = "round_half_even (x / 2 powi ?q)"
  have e: "e_inf \<le> ?e"
    using x0 assms by (rule floor_log2_ge)
  then have q: "?q = ?e - 52"
    using x0 by (simp add: ulp_exp_def e_min_def e_inf_def)
  have "of_int (2 ^ 52) * 2 powi ?q = (2::rat) powi ?e"
    using pow2_split [of ?q ?e] by (simp add: q)
  also have "\<dots> \<le> x"
    using floor_log2_bounds [OF x0] by simp
  finally have "of_int (2 ^ 52) \<le> x / 2 powi ?q"
    by (simp add: pos_le_divide_eq)
  then have "2 ^ 52 \<le> ?m"
    by (rule round_half_even_ge)
  then have "(of_int (2 ^ 52) :: rat) \<le> of_int ?m"
    by (simp only: of_int_le_iff)
  then have m: "of_int (2 ^ 52) * 2 powi ?q \<le> of_int ?m * (2::rat) powi ?q"
    by (intro mult_right_mono) simp_all
  have "(2::rat) powi e_inf \<le> 2 powi ?e"
    using e by (rule pow2_mono)
  also have "\<dots> = of_int (2 ^ 52) * 2 powi ?q"
    using pow2_split [of ?q ?e] by (simp add: q)
  also note m
  finally have "2 powi e_inf \<le> of_int ?m * (2::rat) powi ?q" .
  then have "2 powi e_inf \<le> \<bar>of_int ?m * (2::rat) powi ?q\<bar>"
    by linarith
  then show ?thesis
    using x0 by (simp add: round_double_nonzero Let_def)
qed

text \<open>Evaluating a rounding: the exponent and the rounded factor are given and checked.\<close>

lemma round_double_eqI:
  assumes "x \<noteq> 0" and "2 powi e \<le> \<bar>x\<bar>" and "\<bar>x\<bar> < 2 powi (e + 1)"
    and "q = max e e_min - 52" and "round_half_even (x / 2 powi q) = m"
    and "\<bar>of_int m * 2 powi q :: rat\<bar> < 2 powi e_inf"
  shows "round_double x = Num (of_int m * 2 powi q)"
proof -
  have "floor_log2 \<bar>x\<bar> = e"
    using assms(1-3) by (intro floor_log2_unique) simp_all
  then have "ulp_exp x = q"
    by (simp add: ulp_exp_def assms(4))
  then show ?thesis
    using assms(1,5,6) by (simp add: round_double_nonzero Let_def)
qed

lemma round_half_even_eqI:
  assumes "\<bar>y - of_int m\<bar> < 1 / 2"
  shows "round_half_even y = m"
proof -
  have "of_int m - 1 \<le> y" and "y \<le> of_int m + 1"
    using assms by linarith+
  then have "of_int (m - 1) \<le> y" and "y \<le> of_int (m + 1)"
    by simp_all
  then have b: "m - 1 \<le> round_half_even y" "round_half_even y \<le> m + 1"
    by (simp_all only: round_half_even_ge round_half_even_le)
  have e: "\<bar>of_int (round_half_even y) - y\<bar> \<le> 1 / 2"
    by (rule round_half_even_error)
  have "\<bar>(of_int (round_half_even y) :: rat) - of_int m\<bar> < 1"
    using e assms by linarith
  then have "\<bar>round_half_even y - m\<bar> < 1"
    by (metis of_int_abs of_int_diff of_int_less_1_iff)
  then show ?thesis by simp
qed

section \<open>Arithmetic of the aggregation\<close>

lemma on_grid_nonneg:
  assumes "on_grid r" and "0 \<le> r"
  shows "r = 0 \<or> 2 powi (e_min - 52) \<le> r"
proof -
  obtain k :: int where k: "r = of_int k * 2 powi (e_min - 52)"
    using assms(1) unfolding on_grid_def by blast
  have "0 \<le> k"
    using assms(2) pow2_pos [of "e_min - 52"] by (simp add: k zero_le_mult_iff)
  show ?thesis
  proof (cases "k = 0")
    case True
    then show ?thesis by (simp add: k)
  next
    case False
    with \<open>0 \<le> k\<close> have "1 \<le> k" by simp
    then have "(of_int 1 :: rat) \<le> of_int k" by (simp only: of_int_le_iff)
    then have "of_int 1 * 2 powi (e_min - 52) \<le> of_int k * (2::rat) powi (e_min - 52)"
      by (intro mult_right_mono) simp_all
    then show ?thesis by (simp add: k)
  qed
qed

text \<open>Rounding a number that is not negative gives a double that is not negative.\<close>

lemma nonneg_double_round: "0 \<le> x \<Longrightarrow> nonneg_double (round_double x)"
  using round_double_nonneg [of x] round_double_on_grid [of x] on_grid_nonneg
  by (cases "round_double x") auto

lemma nonneg_double_round_pos:
  assumes "2 powi (e_min - 52) \<le> x"
  shows "nonneg_double (round_double x) \<and> round_double x \<noteq> Num 0"
proof -
  have p: "(0::rat) < 2 powi (e_min - 52)" by (rule pow2_pos)
  from round_double_pos [OF assms] show ?thesis
  proof
    assume "round_double x = PosInfinity"
    then show ?thesis by simp
  next
    assume "\<exists>r. round_double x = Num r \<and> 2 powi (e_min - 52) \<le> r"
    then obtain r where r: "round_double x = Num r" "2 powi (e_min - 52) \<le> r" by blast
    then have "r \<noteq> 0" using p by linarith
    with r show ?thesis by simp
  qed
qed

lemma js_ge_zero_cases: "js_ge x (Num 0) \<longleftrightarrow> (\<exists>r. x = Num r \<and> 0 \<le> r) \<or> x = PosInfinity"
  by (cases x) auto

lemma nonneg_double_ge:
  assumes "nonneg_double (Num a)"
  shows "0 \<le> a"
proof -
  have "a = 0 \<or> 2 powi (e_min - 52) \<le> a"
    using assms by simp
  then show ?thesis
    using pow2_pos [of "e_min - 52"] by linarith
qed

lemma nonneg_double_add:
  assumes "nonneg_double x" and "js_ge y (Num 0)"
  shows "nonneg_double (js_add x y)"
proof (cases x)
  case (Num a)
  then have a: "0 \<le> a"
    using assms(1) nonneg_double_ge by simp
  from assms(2) show ?thesis
  proof (cases y)
    case (Num b)
    with assms(2) have "0 \<le> b" by simp
    with a have "0 \<le> a + b" by simp
    then show ?thesis
      using \<open>x = Num a\<close> \<open>y = Num b\<close> by (simp add: nonneg_double_round)
  qed (simp_all add: \<open>x = Num a\<close>)
next
  case PosInfinity
  with assms(2) show ?thesis by (cases y) simp_all
qed (use assms(1) in simp_all)

lemma nonneg_double_foldl:
  assumes "nonneg_double a" and "\<forall>m \<in> set ms. js_ge (f m) (Num 0)"
  shows "nonneg_double (foldl (\<lambda>sum meal. js_add sum (f meal)) a ms)"
  using assms
proof (induction ms arbitrary: a)
  case Nil
  then show ?case by simp
next
  case (Cons m ms)
  then show ?case by (simp add: nonneg_double_add)
qed

lemma nonneg_double_totals:
  assumes "\<forall>m \<in> set ms. js_ge (protein m) (Num 0) \<and> js_ge (carbs m) (Num 0) \<and> js_ge (fat m) (Num 0)"
  shows "nonneg_double (totalProtein ms)"
    and "nonneg_double (totalCarbs ms)"
    and "nonneg_double (totalFat ms)"
  using assms
  by (simp_all add: totalProtein_def totalCarbs_def totalFat_def nonneg_double_foldl)

text \<open>A product by a factor of at least 1, and a sum, are zero only when the operands are.\<close>

lemma nonneg_double_mul:
  assumes "nonneg_double x" and "1 \<le> k"
  shows "nonneg_double (js_mul x (Num k))"
    and "js_mul x (Num k) = Num 0 \<Longrightarrow> x = Num 0"
proof -
  have "nonneg_double (js_mul x (Num k)) \<and> (js_mul x (Num k) = Num 0 \<longrightarrow> x = Num 0)"
  proof (cases x)
    case (Num a)
    show ?thesis
    proof (cases "a = 0")
      case True
      then show ?thesis by (simp add: Num round_double_def)
    next
      case False
      then have "2 powi (e_min - 52) \<le> a"
        using assms(1) Num by simp
      moreover have "a * 1 \<le> a * k"
        using assms(2) nonneg_double_ge [of a] assms(1) Num by (intro mult_left_mono) simp_all
      ultimately have "2 powi (e_min - 52) \<le> a * k" by simp
      from nonneg_double_round_pos [OF this] show ?thesis
        by (simp add: Num)
    qed
  next
    case PosInfinity
    then show ?thesis using assms(2) by simp
  qed (use assms(1) in simp_all)
  then show "nonneg_double (js_mul x (Num k))"
    and "js_mul x (Num k) = Num 0 \<Longrightarrow> x = Num 0"
    by simp_all
qed

lemma nonneg_double_add_zero:
  assumes "nonneg_double x" and "nonneg_double y" and "js_add x y = Num 0"
  shows "x = Num 0 \<and> y = Num 0"
proof (cases x)
  case (Num a)
  note x = this
  show ?thesis
  proof (cases y)
    case (Num b)
    have a: "0 \<le> a" and b: "0 \<le> b"
      using assms(1,2) x Num nonneg_double_ge by simp_all
    show ?thesis
    proof (cases "a = 0 \<and> b = 0")
      case True
      then show ?thesis by (simp add: x Num)
    next
      case False
      then have "2 powi (e_min - 52) \<le> a \<or> 2 powi (e_min - 52) \<le> b"
        using assms(1,2) x Num by auto
      then have "2 powi (e_min - 52) \<le> a + b"
        using a b by linarith
      from nonneg_double_round_pos [OF this] assms(3) show ?thesis
        by (simp add: x Num)
    qed
  qed (use assms(2,3) x in simp_all)
next
  case PosInfinity
  with assms(2,3) show ?thesis by (cases y) simp_all
qed (use assms(1) in simp_all)

lemma totals_zero:
  assumes v: "\<forall>m \<in> set ms. js_ge (protein m) (Num 0) \<and> js_ge (carbs m) (Num 0) \<and> js_ge (fat m) (Num 0)"
    and z: "totalCalories ms = Num 0"
  shows "totalProtein ms = Num 0 \<and> totalCarbs ms = Num 0 \<and> totalFat ms = Num 0"
proof -
  let ?p = "js_mul (totalProtein ms) (Num 4)"
  let ?c = "js_mul (totalCarbs ms) (Num 4)"
  let ?f = "js_mul (totalFat ms) (Num 9)"
  note t = nonneg_double_totals [OF v]
  have np: "nonneg_double ?p" and nc: "nonneg_double ?c" and nf: "nonneg_double ?f"
    using t by (simp_all add: nonneg_double_mul(1))
  have npc: "nonneg_double (js_add ?p ?c)"
  proof (cases ?c)
    case (Num b)
    then have "0 \<le> b"
      using nc nonneg_double_ge by simp
    then have "js_ge ?c (Num 0)"
      by (simp add: Num)
    then show ?thesis using np by (rule nonneg_double_add [rotated])
  next
    case PosInfinity
    then show ?thesis using np by (cases ?p) simp_all
  qed (use nc in simp_all)
  have "js_add (js_add ?p ?c) ?f = Num 0"
    using z by (simp add: totalCalories_def)
  then have pc: "js_add ?p ?c = Num 0" and f: "?f = Num 0"
    using nonneg_double_add_zero [OF npc nf] by simp_all
  have "?p = Num 0" and "?c = Num 0"
    using nonneg_double_add_zero [OF np nc pc] by simp_all
  with f show ?thesis
    using t by (auto dest: nonneg_double_mul(2) [rotated -1])
qed

text \<open>With all three totals zero, each quotient is \<open>0 / 0\<close>, that is NaN.\<close>

lemma percentages_NaN:
  assumes "totalProtein ms = Num 0" and "totalCarbs ms = Num 0" and "totalFat ms = Num 0"
  shows "proteinPercentage ms = NaN" and "carbsPercentage ms = NaN" and "fatPercentage ms = NaN"
  using assms
  by (simp_all add: totalCalories_def proteinPercentage_def carbsPercentage_def
      fatPercentage_def round_double_def)

text \<open>A list whose records have all three macros zero has total calories zero.\<close>

lemma zero_meals_total:
  assumes "\<forall>m \<in> set ms. protein m = Num 0 \<and> carbs m = Num 0 \<and> fat m = Num 0"
  shows "totalCalories ms = Num 0"
proof -
  have z: "foldl (\<lambda>sum meal. js_add sum (f meal)) (Num 0) ms = Num 0"
    if "\<forall>m \<in> set ms. f m = Num 0" for f :: "Meal \<Rightarrow> jsnum"
    using that by (induction ms) (simp_all add: round_double_def)
  have "totalProtein ms = Num 0" and "totalCarbs ms = Num 0" and "totalFat ms = Num 0"
    using assms by (simp_all add: totalProtein_def totalCarbs_def totalFat_def z)
  then show ?thesis
    by (simp add: totalCalories_def round_double_def)
qed

lemma meals_mondayOf: "meals (mondayOf ms) (str ''monday'') = Some ms"
  by (simp add: mondayOf_def)

text \<open>
  C1. For a day whose list is empty or holds only records with protein, carbs and fat
  all 0, and more generally for a list of total calories 0 whose records passed
  validation (each macro \<open>>= 0\<close>), \<open>calculateTotals\<close> returns normally and sets the
  calories to 0 and the three percentages to exactly 0: the quotients are \<open>0 / 0\<close>,
  that is NaN, and the \<open>isNaN\<close> guards replace them by 0.
\<close>

theorem calculateTotals_zero_total:
  assumes "meals s d = Some ms"
    and "(\<forall>m \<in> set ms. protein m = Num 0 \<and> carbs m = Num 0 \<and> fat m = Num 0) \<or>
         ((\<forall>m \<in> set ms. js_ge (protein m) (Num 0) \<and> js_ge (carbs m) (Num 0) \<and>
                            js_ge (fat m) (Num 0)) \<and>
          totalCalories ms = Num 0)"
  shows "\<exists>s'. calculateTotals d s = Inr s' \<and> currentCalories s' = Num 0 \<and>
    macroPercentages s' = \<lparr>protein_pct = Num 0, carbs_pct = Num 0, fat_pct = Num 0\<rparr>"
proof -
  have v: "\<forall>m \<in> set ms. js_ge (protein m) (Num 0) \<and> js_ge (carbs m) (Num 0) \<and>
      js_ge (fat m) (Num 0)"
    using assms(2) by auto
  have z: "totalCalories ms = Num 0"
    using assms(2) zero_meals_total [of ms] by blast
  have t: "totalProtein ms = Num 0" "totalCarbs ms = Num 0" "totalFat ms = Num 0"
    using totals_zero [OF v z] by simp_all
  show ?thesis
    using assms(1) z percentages_NaN [OF t]
    by (simp add: calculateTotals_def)
qed

theorem calculateTotals_zero_total_witness:
  "(\<exists>s'. calculateTotals (str ''monday'') (mondayOf []) = Inr s' \<and> currentCalories s' = Num 0 \<and>
      macroPercentages s' = \<lparr>protein_pct = Num 0, carbs_pct = Num 0, fat_pct = Num 0\<rparr>) \<and>
   (\<exists>s'. calculateTotals (str ''monday'') (mondayOf [water, water]) = Inr s' \<and>
      currentCalories s' = Num 0 \<and>
      macroPercentages s' = \<lparr>protein_pct = Num 0, carbs_pct = Num 0, fat_pct = Num 0\<rparr>)"
proof (rule conjI)
  have z: "(\<forall>m \<in> set ([] :: Meal list). protein m = Num 0 \<and> carbs m = Num 0 \<and> fat m = Num 0) \<or>
      ((\<forall>m \<in> set ([] :: Meal list). js_ge (protein m) (Num 0) \<and> js_ge (carbs m) (Num 0) \<and>
          js_ge (fat m) (Num 0)) \<and>
       totalCalories [] = Num 0)"
    by (rule disjI1) simp
  show "\<exists>s'. calculateTotals (str ''monday'') (mondayOf []) = Inr s' \<and> currentCalories s' = Num 0 \<and>
      macroPercentages s' = \<lparr>protein_pct = Num 0, carbs_pct = Num 0, fat_pct = Num 0\<rparr>"
    by (rule calculateTotals_zero_total [OF meals_mondayOf z])
next
  have z: "(\<forall>m \<in> set [water, water]. protein m = Num 0 \<and> carbs m = Num 0 \<and> fat m = Num 0) \<or>
      ((\<forall>m \<in> set [water, water]. js_ge (protein m) (Num 0) \<and> js_ge (carbs m) (Num 0) \<and>
          js_ge (fat m) (Num 0)) \<and>
       totalCalories [water, water] = Num 0)"
    by (rule disjI1) (simp add: water_def)
  show "\<exists>s'. calculateTotals (str ''monday'') (mondayOf [water, water]) = Inr s' \<and>
      currentCalories s' = Num 0 \<and>
      macroPercentages s' = \<lparr>protein_pct = Num 0, carbs_pct = Num 0, fat_pct = Num 0\<rparr>"
    by (rule calculateTotals_zero_total [OF meals_mondayOf z])
qed

section \<open>The calories\<close>

text \<open>Sums and products of whole numbers are exact as long as they stay below \<open>2 ^ 53\<close>.\<close>

lemma js_add_nat:
  "k + n < 2 ^ 53 \<Longrightarrow> js_add (Num (of_nat k)) (Num (of_nat n)) = Num (of_nat (k + n))"
  using round_double_nat [of "k + n"] by simp

lemma js_mul_nat:
  "k * n < 2 ^ 53 \<Longrightarrow> js_mul (Num (of_nat k)) (Num (of_nat n)) = Num (of_nat (k * n))"
  using round_double_nat [of "k * n"] by simp

lemma foldl_nat_exact:
  assumes "map f ms = map (\<lambda>n. Num (of_nat n)) ns" and "k + sum_list ns < 2 ^ 53"
  shows "foldl (\<lambda>sum meal. js_add sum (f meal)) (Num (of_nat k)) ms =
    Num (of_nat (k + sum_list ns))"
  using assms
proof (induction ms arbitrary: k ns)
  case Nil
  then show ?case by simp
next
  case (Cons m ms)
  then obtain n ns' where ns: "ns = n # ns'" and m: "f m = Num (of_nat n)"
    and rest: "map f ms = map (\<lambda>n. Num (of_nat n)) ns'"
    by (cases ns) auto
  have b: "(k + n) + sum_list ns' < 2 ^ 53"
    using Cons.prems(2) by (simp add: ns add.assoc)
  then have "k + n < 2 ^ 53" by simp
  then have "js_add (Num (of_nat k)) (f m) = Num (of_nat (k + n))"
    by (simp only: m js_add_nat)
  then show ?case
    using Cons.IH [OF rest b] by (simp add: ns add.assoc)
qed

lemma total_nat_exact:
  assumes "map f ms = map (\<lambda>n. Num (of_nat n)) ns" and "sum_list ns < 2 ^ 53"
  shows "foldl (\<lambda>sum meal. js_add sum (f meal)) (Num 0) ms = Num (of_nat (sum_list ns))"
  using foldl_nat_exact [of f ms ns 0] assms by simp

lemma totalCalories_nat_exact:
  assumes p: "map protein ms = map (\<lambda>n. Num (of_nat n)) ps"
    and c: "map carbs ms = map (\<lambda>n. Num (of_nat n)) cs"
    and f: "map fat ms = map (\<lambda>n. Num (of_nat n)) fs"
    and b: "sum_list ps * 4 + sum_list cs * 4 + sum_list fs * 9 < 2 ^ 53"
  shows "totalCalories ms =
    Num (of_nat (sum_list ps * 4 + sum_list cs * 4 + sum_list fs * 9))"
proof -
  have tp: "totalProtein ms = Num (of_nat (sum_list ps))"
    unfolding totalProtein_def using p b by (intro total_nat_exact) simp_all
  have tc: "totalCarbs ms = Num (of_nat (sum_list cs))"
    unfolding totalCarbs_def using c b by (intro total_nat_exact) simp_all
  have tf: "totalFat ms = Num (of_nat (sum_list fs))"
    unfolding totalFat_def using f b by (intro total_nat_exact) simp_all
  have four: "Num 4 = Num (of_nat 4)" and nine: "Num 9 = Num (of_nat 9)"
    by simp_all
  have mp: "js_mul (totalProtein ms) (Num 4) = Num (of_nat (sum_list ps * 4))"
    unfolding tp four using b by (intro js_mul_nat) simp
  have mc: "js_mul (totalCarbs ms) (Num 4) = Num (of_nat (sum_list cs * 4))"
    unfolding tc four using b by (intro js_mul_nat) simp
  have mf: "js_mul (totalFat ms) (Num 9) = Num (of_nat (sum_list fs * 9))"
    unfolding tf nine using b by (intro js_mul_nat) simp
  have "totalCalories ms =
      js_add (js_add (Num (of_nat (sum_list ps * 4))) (Num (of_nat (sum_list cs * 4))))
             (Num (of_nat (sum_list fs * 9)))"
    by (simp only: totalCalories_def mp mc mf)
  also have "js_add (Num (of_nat (sum_list ps * 4))) (Num (of_nat (sum_list cs * 4))) =
      Num (of_nat (sum_list ps * 4 + sum_list cs * 4))"
    using b by (intro js_add_nat) simp
  also have "js_add (Num (of_nat (sum_list ps * 4 + sum_list cs * 4)))
        (Num (of_nat (sum_list fs * 9))) =
      Num (of_nat (sum_list ps * 4 + sum_list cs * 4 + sum_list fs * 9))"
    using b by (intro js_add_nat) simp
  finally show ?thesis .
qed

text \<open>The roundings of the scenario 50 / 50 / 20, each checked by its exponent and factor.\<close>

lemma round_double_numeral:
  "(numeral n :: int) < 2 ^ 53 \<Longrightarrow> round_double (numeral n) = Num (numeral n)"
  using round_double_int [of "numeral n"] by simp

lemma quotient_200_580:
  "round_double (200 / 580) = Num (6211861554993788 / 2 ^ 54)"
proof -
  have "round_double (200 / 580) = Num (of_int 6211861554993788 * 2 powi (- 54))"
  proof (rule round_double_eqI [where e = "- 2"])
    show "round_half_even (200 / 580 / 2 powi (- 54)) = 6211861554993788"
      by (rule round_half_even_eqI) simp
  qed (simp_all add: e_min_def e_inf_def)
  then show ?thesis by simp
qed

lemma quotient_180_580:
  "round_double (180 / 580) = Num (5590675399494409 / 2 ^ 54)"
proof -
  have "round_double (180 / 580) = Num (of_int 5590675399494409 * 2 powi (- 54))"
  proof (rule round_double_eqI [where e = "- 2"])
    show "round_half_even (180 / 580 / 2 powi (- 54)) = 5590675399494409"
      by (rule round_half_even_eqI) simp
  qed (simp_all add: e_min_def e_inf_def)
  then show ?thesis by simp
qed

lemma percentage_200_580:
  "round_double (6211861554993788 / 2 ^ 54 * 100) = Num (4853016839838897 / 2 ^ 47)"
proof -
  have "round_double (6211861554993788 / 2 ^ 54 * 100) =
      Num (of_int 4853016839838897 * 2 powi (- 47))"
  proof (rule round_double_eqI [where e = 5])
    show "round_half_even (6211861554993788 / 2 ^ 54 * 100 / 2 powi (- 47)) = 4853016839838897"
      by (rule round_half_even_eqI) simp
  qed (simp_all add: e_min_def e_inf_def)
  then show ?thesis by simp
qed

lemma percentage_180_580:
  "round_double (5590675399494409 / 2 ^ 54 * 100) = Num (8735430311710014 / 2 ^ 48)"
proof -
  have "round_double (5590675399494409 / 2 ^ 54 * 100) =
      Num (of_int 8735430311710014 * 2 powi (- 48))"
  proof (rule round_double_eqI [where e = 4])
    show "round_half_even (5590675399494409 / 2 ^ 54 * 100 / 2 powi (- 48)) = 8735430311710014"
      by (rule round_half_even_eqI) simp
  qed (simp_all add: e_min_def e_inf_def)
  then show ?thesis by simp
qed

lemma scenario_50_50_20:
  fixes m :: Meal
  assumes "protein m = Num 50" and "carbs m = Num 50" and "fat m = Num 20"
  shows "totalCalories [m] = Num 580"
    and "proteinPercentage [m] = Num (4853016839838897 / 2 ^ 47)"
    and "carbsPercentage [m] = Num (4853016839838897 / 2 ^ 47)"
    and "fatPercentage [m] = Num (8735430311710014 / 2 ^ 48)"
proof -
  have tp: "totalProtein [m] = Num 50" and tc: "totalCarbs [m] = Num 50"
    and tf: "totalFat [m] = Num 20"
    using assms by (simp_all add: totalProtein_def totalCarbs_def totalFat_def round_double_numeral)
  have m4: "js_mul (Num 50) (Num 4) = Num 200" and m9: "js_mul (Num 20) (Num 9) = Num 180"
    by (simp_all add: round_double_numeral)
  show cal: "totalCalories [m] = Num 580"
    by (simp add: totalCalories_def tp tc tf round_double_numeral)
  have q1: "js_div (Num 200) (Num 580) = Num (6211861554993788 / 2 ^ 54)"
    by (simp only: js_div.simps quotient_200_580) simp
  have q3: "js_div (Num 180) (Num 580) = Num (5590675399494409 / 2 ^ 54)"
    by (simp only: js_div.simps quotient_180_580) simp
  have p1: "js_mul (Num (6211861554993788 / 2 ^ 54)) (Num 100) = Num (4853016839838897 / 2 ^ 47)"
    by (simp only: js_mul.simps percentage_200_580)
  have p3: "js_mul (Num (5590675399494409 / 2 ^ 54)) (Num 100) = Num (8735430311710014 / 2 ^ 48)"
    by (simp only: js_mul.simps percentage_180_580)
  show "proteinPercentage [m] = Num (4853016839838897 / 2 ^ 47)"
    by (simp only: proteinPercentage_def tp m4 cal q1 p1)
  show "carbsPercentage [m] = Num (4853016839838897 / 2 ^ 47)"
    by (simp only: carbsPercentage_def tc m4 cal q1 p1)
  show "fatPercentage [m] = Num (8735430311710014 / 2 ^ 48)"
    by (simp only: fatPercentage_def tf m9 cal q3 p3)
qed

lemma round_double_pow2:
  assumes "e_min - 52 \<le> j" and "j < e_inf"
  shows "round_double (2 powi j) = Num (2 powi j)"
proof -
  have "\<bar>(2::rat) powi j\<bar> < 2 powi e_inf"
    using assms(2) by (simp add: power_int_strict_increasing)
  then show ?thesis
    using assms(1) by (intro round_double_representable [of _ 1 j]) simp_all
qed

lemma round_half_even_tie:
  assumes "y = of_int m + 1 / 2" and "even m"
  shows "round_half_even y = m"
proof -
  have "\<lfloor>y\<rfloor> = m"
    unfolding assms(1) by (intro floor_unique) simp_all
  then show ?thesis
    using assms by (simp add: round_half_even_def Let_def)
qed

text \<open>\<open>2 ^ 53 + 1\<close> lies halfway between two doubles and rounds to the even one.\<close>

lemma round_double_2_53_plus_1: "round_double (2 powi 53 + 1) = Num (2 powi 53)"
proof -
  have "round_double (2 powi 53 + 1) = Num (of_int (2 ^ 52) * 2 powi 1)"
  proof (rule round_double_eqI [where e = 53])
    show "round_half_even ((2 powi 53 + 1) / 2 powi 1) = 2 ^ 52"
      by (rule round_half_even_tie) simp_all
  qed (simp_all add: e_min_def e_inf_def)
  then show ?thesis by simp
qed

lemma totalCalories_bulk_crumb: "totalCalories [bulk, crumb] = Num (2 powi 55)"
proof -
  have f1: "round_double (2 powi 53) = Num (2 powi 53)"
    and f3: "round_double (2 powi 55) = Num (2 powi 55)"
    by (rule round_double_pow2; simp add: e_min_def e_inf_def)+
  have z: "round_double 0 = Num 0"
    by (simp add: round_double_def)
  have tp: "totalProtein [bulk, crumb] = Num (2 powi 53)"
    unfolding totalProtein_def bulk_def crumb_def
    by (simp del: power_int_numeral add: f1 round_double_2_53_plus_1)
  have tc: "totalCarbs [bulk, crumb] = Num 0" and tf: "totalFat [bulk, crumb] = Num 0"
    unfolding totalCarbs_def totalFat_def bulk_def crumb_def
    by (simp_all add: z)
  have "(2::rat) powi 53 * 4 = 2 powi 55"
    by simp
  then have m: "js_mul (Num (2 powi 53)) (Num 4) = Num (2 powi 55)"
    by (simp only: js_mul.simps f3)
  show ?thesis
    unfolding totalCalories_def tp tc tf m
    by (simp del: power_int_numeral add: z f3)
qed

lemma bulk_crumb_valid:
  "\<forall>m \<in> set [bulk, crumb]. mealFormSchema m = Inr m \<and> is_double (protein m) \<and>
     is_double (carbs m) \<and> is_double (fat m)"
proof -
  have f1: "round_double (2 powi 53) = Num (2 powi 53)"
    by (rule round_double_pow2) (simp_all add: e_min_def e_inf_def)
  have z: "round_double 0 = Num 0"
    by (simp add: round_double_def)
  have o: "round_double 1 = Num 1"
    using round_double_nat [of 1] by simp
  have "(0::rat) < 2 powi 53" by (rule pow2_pos)
  then have nneg: "\<not> (2::rat) powi 53 < 0" by linarith
  have "mealFormSchema bulk = Inr bulk" and "mealFormSchema crumb = Inr crumb"
    unfolding mealFormSchema_def z_enum_def z_string_min2_def z_number_min0_def
    using nneg by (simp_all add: bulk_def crumb_def day_enum_def str_def del: power_int_numeral)
  moreover have "is_double (protein bulk) \<and> is_double (carbs bulk) \<and> is_double (fat bulk)"
    and "is_double (protein crumb) \<and> is_double (carbs crumb) \<and> is_double (fat crumb)"
    by (simp_all add: bulk_def crumb_def f1 z o del: power_int_numeral)
  ultimately show ?thesis by simp
qed

text \<open>
  C3, as the specification states it: the calories are the sum of the proteins times 4
  plus the sum of the carbs times 4 plus the sum of the fats times 9. With the sums of
  mathematics this fails, also for records that pass validation and hold doubles: the
  code adds doubles. For the proteins \<open>2 ^ 53\<close> and \<open>1\<close> the sum is \<open>2 ^ 53\<close> again, and
  the calories are \<open>2 ^ 55 = 36028797018963968\<close>, not \<open>(2 ^ 53 + 1) * 4\<close>.
\<close>

theorem calories_not_exact_sum:
  "\<not> (\<forall>s d ms ps cs fs.
        meals s d = Some ms \<and>
        (\<forall>m \<in> set ms. mealFormSchema m = Inr m \<and> is_double (protein m) \<and>
            is_double (carbs m) \<and> is_double (fat m)) \<and>
        map protein ms = map Num ps \<and> map carbs ms = map Num cs \<and>
        map fat ms = map Num fs \<longrightarrow>
        (\<exists>s'. calculateTotals d s = Inr s' \<and>
           currentCalories s' = Num (sum_list ps * 4 + sum_list cs * 4 + sum_list fs * 9)))"
proof
  assume claim: "\<forall>s d ms ps cs fs.
      meals s d = Some ms \<and>
      (\<forall>m \<in> set ms. mealFormSchema m = Inr m \<and> is_double (protein m) \<and>
          is_double (carbs m) \<and> is_double (fat m)) \<and>
      map protein ms = map Num ps \<and> map carbs ms = map Num cs \<and>
      map fat ms = map Num fs \<longrightarrow>
      (\<exists>s'. calculateTotals d s = Inr s' \<and>
         currentCalories s' = Num (sum_list ps * 4 + sum_list cs * 4 + sum_list fs * 9))"
  have "map protein [bulk, crumb] = map Num [2 powi 53, 1]"
    and "map carbs [bulk, crumb] = map Num [0, 0]"
    and "map fat [bulk, crumb] = map Num [0, 0]"
    by (simp_all add: bulk_def crumb_def)
  with claim meals_mondayOf [of "[bulk, crumb]"] bulk_crumb_valid
  obtain s' where "calculateTotals (str ''monday'') (mondayOf [bulk, crumb]) = Inr s'"
    and "currentCalories s' =
      Num (sum_list [2 powi 53, 1] * 4 + sum_list [0, 0] * 4 + sum_list [0, 0] * 9)"
    by blast
  then have "totalCalories [bulk, crumb] = Num ((2 powi 53 + 1) * 4)"
    by (auto simp: calculateTotals_def meals_mondayOf)
  then show False
    by (simp add: totalCalories_bulk_crumb)
qed

text \<open>
  C3, amended: \<open>calculateTotals\<close> sets the calories to protein total * 4 + carbs total
  * 4 + fat total * 9 evaluated in double arithmetic, each total being the sum of the
  list from left to right in double arithmetic, 0 for the empty list. When the macros
  are whole numbers and the exact calories stay below \<open>2 ^ 53\<close>, no operation rounds,
  and the calories are exactly 4 * sum of protein + 4 * sum of carbs + 9 * sum of fat.
  The single meal 50 / 50 / 20 gives exactly 580 calories, and the percentages are the
  doubles that \<open>200 / 580 * 100\<close> and \<open>180 / 580 * 100\<close> evaluate to:
  34.48275862068966 for protein and carbs, 31.03448275862069 for fat, within
  \<open>10^-14\<close> of \<open>1000 / 29\<close> and \<open>900 / 29\<close>.
\<close>

theorem totalCalories_atwater:
  assumes "meals s d = Some ms"
  shows "\<exists>s'. calculateTotals d s = Inr s' \<and>
    currentCalories s' =
      js_add (js_add (js_mul (totalProtein ms) (Num 4)) (js_mul (totalCarbs ms) (Num 4)))
             (js_mul (totalFat ms) (Num 9)) \<and>
    (\<forall>ps cs fs.
        map protein ms = map (\<lambda>n. Num (of_nat n)) ps \<and>
        map carbs ms = map (\<lambda>n. Num (of_nat n)) cs \<and>
        map fat ms = map (\<lambda>n. Num (of_nat n)) fs \<and>
        sum_list ps * 4 + sum_list cs * 4 + sum_list fs * 9 < 2 ^ 53 \<longrightarrow>
        currentCalories s' =
          Num (of_nat (sum_list ps * 4 + sum_list cs * 4 + sum_list fs * 9))) \<and>
    (ms = [] \<longrightarrow> currentCalories s' = Num 0) \<and>
    (\<forall>dy nm. ms = [\<lparr>day = dy, name = nm, protein = Num 50, carbs = Num 50, fat = Num 20\<rparr>] \<longrightarrow>
       currentCalories s' = Num 580 \<and>
       macroPercentages s' = \<lparr>protein_pct = Num (4853016839838897 / 2 ^ 47),
                               carbs_pct = Num (4853016839838897 / 2 ^ 47),
                               fat_pct = Num (4367715155855007 / 2 ^ 47)\<rparr> \<and>
       \<bar>4853016839838897 / 2 ^ 47 - 1000 / 29 :: rat\<bar> \<le> 1 / 10 ^ 14 \<and>
       \<bar>4367715155855007 / 2 ^ 47 - 900 / 29 :: rat\<bar> \<le> 1 / 10 ^ 14)"
proof -
  obtain s' where s': "calculateTotals d s = Inr s'"
    and cal: "currentCalories s' = totalCalories ms"
    and pct: "macroPercentages s' =
      \<lparr>protein_pct = (if isNaN (proteinPercentage ms) then Num 0 else proteinPercentage ms),
       carbs_pct = (if isNaN (carbsPercentage ms) then Num 0 else carbsPercentage ms),
       fat_pct = (if isNaN (fatPercentage ms) then Num 0 else fatPercentage ms)\<rparr>"
    using assms by (simp add: calculateTotals_def)
  have general: "currentCalories s' =
      js_add (js_add (js_mul (totalProtein ms) (Num 4)) (js_mul (totalCarbs ms) (Num 4)))
             (js_mul (totalFat ms) (Num 9))"
    unfolding cal by (simp add: totalCalories_def)
  have exact: "\<forall>ps cs fs.
      map protein ms = map (\<lambda>n. Num (of_nat n)) ps \<and>
      map carbs ms = map (\<lambda>n. Num (of_nat n)) cs \<and>
      map fat ms = map (\<lambda>n. Num (of_nat n)) fs \<and>
      sum_list ps * 4 + sum_list cs * 4 + sum_list fs * 9 < 2 ^ 53 \<longrightarrow>
      currentCalories s' =
        Num (of_nat (sum_list ps * 4 + sum_list cs * 4 + sum_list fs * 9))"
    unfolding cal by (intro allI impI totalCalories_nat_exact) simp_all
  have empty: "ms = [] \<longrightarrow> currentCalories s' = Num 0"
    unfolding cal
    by (simp add: totalCalories_def totalProtein_def totalCarbs_def totalFat_def
        round_double_def)
  have single: "\<forall>dy nm.
      ms = [\<lparr>day = dy, name = nm, protein = Num 50, carbs = Num 50, fat = Num 20\<rparr>] \<longrightarrow>
      currentCalories s' = Num 580 \<and>
      macroPercentages s' = \<lparr>protein_pct = Num (4853016839838897 / 2 ^ 47),
                              carbs_pct = Num (4853016839838897 / 2 ^ 47),
                              fat_pct = Num (4367715155855007 / 2 ^ 47)\<rparr> \<and>
      \<bar>4853016839838897 / 2 ^ 47 - 1000 / 29 :: rat\<bar> \<le> 1 / 10 ^ 14 \<and>
      \<bar>4367715155855007 / 2 ^ 47 - 900 / 29 :: rat\<bar> \<le> 1 / 10 ^ 14"
  proof (intro allI impI)
    fix dy nm
    assume ms: "ms = [\<lparr>day = dy, name = nm, protein = Num 50, carbs = Num 50, fat = Num 20\<rparr>]"
    let ?m = "\<lparr>day = dy, name = nm, protein = Num 50, carbs = Num 50, fat = Num 20\<rparr>"
    note sc = scenario_50_50_20 [of ?m, simplified]
    have "currentCalories s' = Num 580"
      unfolding cal ms by (rule sc(1))
    moreover have "macroPercentages s' = \<lparr>protein_pct = Num (4853016839838897 / 2 ^ 47),
        carbs_pct = Num (4853016839838897 / 2 ^ 47),
        fat_pct = Num (4367715155855007 / 2 ^ 47)\<rparr>"
      unfolding pct ms by (simp add: sc)
    moreover have "\<bar>4853016839838897 / 2 ^ 47 - 1000 / 29 :: rat\<bar> \<le> 1 / 10 ^ 14"
      and "\<bar>4367715155855007 / 2 ^ 47 - 900 / 29 :: rat\<bar> \<le> 1 / 10 ^ 14"
      by simp_all
    ultimately show "currentCalories s' = Num 580 \<and>
      macroPercentages s' = \<lparr>protein_pct = Num (4853016839838897 / 2 ^ 47),
                              carbs_pct = Num (4853016839838897 / 2 ^ 47),
                              fat_pct = Num (4367715155855007 / 2 ^ 47)\<rparr> \<and>
      \<bar>4853016839838897 / 2 ^ 47 - 1000 / 29 :: rat\<bar> \<le> 1 / 10 ^ 14 \<and>
      \<bar>4367715155855007 / 2 ^ 47 - 900 / 29 :: rat\<bar> \<le> 1 / 10 ^ 14"
      by blast
  qed
  show ?thesis
    by (intro exI [of _ s'] conjI; fact)
qed

theorem totalCalories_atwater_witness:
  "(\<exists>s'. calculateTotals (str ''monday'') (mondayOf [lunch]) = Inr s' \<and>
     currentCalories s' = Num 580 \<and>
     macroPercentages s' = \<lparr>protein_pct = Num (4853016839838897 / 2 ^ 47),
                             carbs_pct = Num (4853016839838897 / 2 ^ 47),
                             fat_pct = Num (4367715155855007 / 2 ^ 47)\<rparr>) \<and>
   (\<exists>s'. calculateTotals (str ''monday'') (mondayOf [snack, water]) = Inr s' \<and>
     currentCalories s' = Num 170)"
proof (rule conjI)
  have l: "[lunch] = [\<lparr>day = str ''monday'', name = str ''Lunch'',
      protein = Num 50, carbs = Num 50, fat = Num 20\<rparr>]"
    by (simp add: lunch_def)
  show "\<exists>s'. calculateTotals (str ''monday'') (mondayOf [lunch]) = Inr s' \<and>
     currentCalories s' = Num 580 \<and>
     macroPercentages s' = \<lparr>protein_pct = Num (4853016839838897 / 2 ^ 47),
                             carbs_pct = Num (4853016839838897 / 2 ^ 47),
                             fat_pct = Num (4367715155855007 / 2 ^ 47)\<rparr>"
    using totalCalories_atwater [OF meals_mondayOf, of "[lunch]"] l by blast
next
  have p: "map protein [snack, water] = map (\<lambda>n. Num (of_nat n)) [10, 0]"
    and c: "map carbs [snack, water] = map (\<lambda>n. Num (of_nat n)) [10, 0]"
    and f: "map fat [snack, water] = map (\<lambda>n. Num (of_nat n)) [10, 0]"
    by (simp_all add: snack_def water_def)
  have b: "sum_list [10, 0] * 4 + sum_list [10, 0] * 4 + sum_list [10, 0] * 9 < (2::nat) ^ 53"
    by simp
  obtain s' where s': "calculateTotals (str ''monday'') (mondayOf [snack, water]) = Inr s'"
    and e: "\<forall>ps cs fs.
        map protein [snack, water] = map (\<lambda>n. Num (of_nat n)) ps \<and>
        map carbs [snack, water] = map (\<lambda>n. Num (of_nat n)) cs \<and>
        map fat [snack, water] = map (\<lambda>n. Num (of_nat n)) fs \<and>
        sum_list ps * 4 + sum_list cs * 4 + sum_list fs * 9 < 2 ^ 53 \<longrightarrow>
        currentCalories s' =
          Num (of_nat (sum_list ps * 4 + sum_list cs * 4 + sum_list fs * 9))"
    using totalCalories_atwater [OF meals_mondayOf, of "[snack, water]"] by blast
  from e p c f b have "currentCalories s' =
      Num (of_nat (sum_list [10, 0] * 4 + sum_list [10, 0] * 4 + sum_list [10, 0] * 9))"
    by blast
  then have "currentCalories s' = Num 170" by simp
  with s' show "\<exists>s'. calculateTotals (str ''monday'') (mondayOf [snack, water]) = Inr s' \<and>
     currentCalories s' = Num 170"
    by blast
qed

section \<open>The percentages\<close>

text \<open>Bounds on a chain of roundings, each with relative error \<open>u\<close>.\<close>

lemma rel_bounds:
  fixes r x u :: rat
  assumes "\<bar>r - x\<bar> \<le> u * \<bar>x\<bar>" and "0 \<le> x"
  shows "x * (1 - u) \<le> r" and "r \<le> x * (1 + u)"
  using assms by (simp_all add: abs_le_iff algebra_simps)

lemma calories_bounds:
  fixes a b d s c u :: rat
  assumes nn: "0 \<le> a" "0 \<le> b" "0 \<le> d" and u: "0 \<le> u" "u < 1"
    and s: "(a + b) * (1 - u) \<le> s" "s \<le> (a + b) * (1 + u)"
    and c: "(s + d) * (1 - u) \<le> c" "c \<le> (s + d) * (1 + u)"
  shows "(a + b + d) * (1 - u)\<^sup>2 \<le> c" and "c \<le> (a + b + d) * (1 + u)\<^sup>2"
proof -
  have w: "0 < 1 - u" and v: "0 < 1 + u" using u by simp_all
  have "(a + b + d) * (1 - u) \<le> (a + b) * (1 - u) + d"
    using nn u by (simp add: algebra_simps)
  also have "\<dots> \<le> s + d" using s by simp
  finally have "(a + b + d) * (1 - u) * (1 - u) \<le> (s + d) * (1 - u)"
    using w by (intro mult_right_mono) simp_all
  with c show "(a + b + d) * (1 - u)\<^sup>2 \<le> c"
    by (simp add: power2_eq_square mult.assoc)
  have "s + d \<le> (a + b) * (1 + u) + d" using s by simp
  also have "\<dots> \<le> (a + b + d) * (1 + u)"
    using nn u by (simp add: algebra_simps)
  finally have "(s + d) * (1 + u) \<le> (a + b + d) * (1 + u) * (1 + u)"
    using v by (intro mult_right_mono) simp_all
  with c show "c \<le> (a + b + d) * (1 + u)\<^sup>2"
    by (simp add: power2_eq_square mult.assoc)
qed

lemma ratio_bounds:
  fixes t c u :: rat
  assumes t: "0 < t" and u: "0 \<le> u" "u < 1"
    and c: "t * (1 - u)\<^sup>2 \<le> c" "c \<le> t * (1 + u)\<^sup>2"
  shows "0 < c" and "1 / (1 + u)\<^sup>2 \<le> t / c" and "t / c \<le> 1 / (1 - u)\<^sup>2"
proof -
  have w: "0 < (1 - u)\<^sup>2" and v: "0 < (1 + u)\<^sup>2" using u by simp_all
  have "0 < t * (1 - u)\<^sup>2" using t w by simp
  with c show c0: "0 < c" by linarith
  show "1 / (1 + u)\<^sup>2 \<le> t / c"
    using c(2) c0 v by (simp add: field_simps)
  show "t / c \<le> 1 / (1 - u)\<^sup>2"
    using c(1) c0 w by (simp add: field_simps)
qed

lemma percentage_bounds:
  fixes y q p u e :: rat
  assumes "0 \<le> y" "0 \<le> u" "u < 1" "0 \<le> q"
    and q: "\<bar>q - y\<bar> \<le> u * \<bar>y\<bar> + e"
    and p: "\<bar>p - q * 100\<bar> \<le> u * \<bar>q * 100\<bar>"
  shows "100 * (y * (1 - u) - e) * (1 - u) \<le> p" and "p \<le> 100 * (y * (1 + u) + e) * (1 + u)"
proof -
  have "\<bar>q - y\<bar> \<le> u * y + e"
    using q assms(1) by simp
  then have ql: "y * (1 - u) - e \<le> q" and qu: "q \<le> y * (1 + u) + e"
    by (simp_all add: abs_le_iff algebra_simps)
  have pl: "q * 100 * (1 - u) \<le> p" and pu: "p \<le> q * 100 * (1 + u)"
    using p assms(4) by (simp_all add: abs_le_iff algebra_simps)
  have "100 * (y * (1 - u) - e) * (1 - u) \<le> 100 * q * (1 - u)"
    using ql assms(2,3) by (intro mult_right_mono mult_left_mono) simp_all
  with pl show "100 * (y * (1 - u) - e) * (1 - u) \<le> p"
    by (simp add: mult.commute mult.left_commute)
  have "100 * q * (1 + u) \<le> 100 * (y * (1 + u) + e) * (1 + u)"
    using qu assms(2,3) by (intro mult_right_mono mult_left_mono) simp_all
  with pu show "p \<le> 100 * (y * (1 + u) + e) * (1 + u)"
    by (simp add: mult.commute mult.left_commute)
qed

lemma sum_bounds:
  fixes a b d c pa pb pd u e :: rat
  assumes t: "0 < a + b + d" and u: "0 \<le> u" "u < 1" and c0: "0 < c"
    and c: "(a + b + d) * (1 - u)\<^sup>2 \<le> c" "c \<le> (a + b + d) * (1 + u)\<^sup>2"
    and pa: "100 * (a / c * (1 - u) - e) * (1 - u) \<le> pa" "pa \<le> 100 * (a / c * (1 + u) + e) * (1 + u)"
    and pb: "100 * (b / c * (1 - u) - e) * (1 - u) \<le> pb" "pb \<le> 100 * (b / c * (1 + u) + e) * (1 + u)"
    and pd: "100 * (d / c * (1 - u) - e) * (1 - u) \<le> pd" "pd \<le> 100 * (d / c * (1 + u) + e) * (1 + u)"
  shows "100 * ((1 - u) / (1 + u)\<^sup>2 - 3 * e) * (1 - u) \<le> pa + pb + pd"
    and "pa + pb + pd \<le> 100 * ((1 + u) / (1 - u)\<^sup>2 + 3 * e) * (1 + u)"
proof -
  let ?t = "a + b + d"
  note r = ratio_bounds [OF t u c]
  have split: "a / c + b / c + d / c = ?t / c"
    by (simp add: add_divide_distrib)
  have "100 * (?t / c * (1 - u) - 3 * e) * (1 - u) =
      100 * (a / c * (1 - u) - e) * (1 - u) + 100 * (b / c * (1 - u) - e) * (1 - u) +
      100 * (d / c * (1 - u) - e) * (1 - u)"
    unfolding split [symmetric] by (simp add: algebra_simps)
  also have "\<dots> \<le> pa + pb + pd"
    using pa(1) pb(1) pd(1) by linarith
  finally have lo: "100 * (?t / c * (1 - u) - 3 * e) * (1 - u) \<le> pa + pb + pd" .
  have "1 / (1 + u)\<^sup>2 * (1 - u) \<le> ?t / c * (1 - u)"
    using r(2) u by (intro mult_right_mono) simp_all
  then have "100 * ((1 - u) / (1 + u)\<^sup>2 - 3 * e) * (1 - u) \<le> 100 * (?t / c * (1 - u) - 3 * e) * (1 - u)"
    using u by (intro mult_right_mono mult_left_mono) simp_all
  with lo show "100 * ((1 - u) / (1 + u)\<^sup>2 - 3 * e) * (1 - u) \<le> pa + pb + pd"
    by linarith
  have "pa + pb + pd \<le>
      100 * (a / c * (1 + u) + e) * (1 + u) + 100 * (b / c * (1 + u) + e) * (1 + u) +
      100 * (d / c * (1 + u) + e) * (1 + u)"
    using pa(2) pb(2) pd(2) by linarith
  also have "\<dots> = 100 * (?t / c * (1 + u) + 3 * e) * (1 + u)"
    unfolding split [symmetric] by (simp add: algebra_simps)
  finally have hi: "pa + pb + pd \<le> 100 * (?t / c * (1 + u) + 3 * e) * (1 + u)" .
  have "?t / c * (1 + u) \<le> 1 / (1 - u)\<^sup>2 * (1 + u)"
    using r(3) u by (intro mult_right_mono) simp_all
  then have "100 * (?t / c * (1 + u) + 3 * e) * (1 + u) \<le> 100 * ((1 + u) / (1 - u)\<^sup>2 + 3 * e) * (1 + u)"
    using u by (intro mult_right_mono mult_left_mono) simp_all
  with hi show "pa + pb + pd \<le> 100 * ((1 + u) / (1 - u)\<^sup>2 + 3 * e) * (1 + u)"
    by linarith
qed

lemma numeric_bounds:
  fixes e :: rat
  assumes "0 \<le> e" and "e \<le> 1 / 2 ^ 53"
  shows "100 - 1 / 10 ^ 13 \<le> 100 * ((1 - 1 / 2 ^ 53) / (1 + 1 / 2 ^ 53)\<^sup>2 - 3 * e) * (1 - 1 / 2 ^ 53)"
    and "100 * ((1 + 1 / 2 ^ 53) / (1 - 1 / 2 ^ 53)\<^sup>2 + 3 * e) * (1 + 1 / 2 ^ 53) \<le> 100 + 1 / 10 ^ 13"
proof -
  have "100 - 1 / 10 ^ 13 \<le> 100 * ((1 - 1 / 2 ^ 53) / (1 + 1 / 2 ^ 53)\<^sup>2 - 3 * (1 / 2 ^ 53)) * (1 - 1 / 2 ^ 53 :: rat)"
    by (simp add: power2_eq_square field_simps)
  also have "\<dots> \<le> 100 * ((1 - 1 / 2 ^ 53) / (1 + 1 / 2 ^ 53)\<^sup>2 - 3 * e) * (1 - 1 / 2 ^ 53)"
    using assms by (intro mult_right_mono mult_left_mono) simp_all
  finally show "100 - 1 / 10 ^ 13 \<le> 100 * ((1 - 1 / 2 ^ 53) / (1 + 1 / 2 ^ 53)\<^sup>2 - 3 * e) * (1 - 1 / 2 ^ 53)" .
  have "100 * ((1 + 1 / 2 ^ 53) / (1 - 1 / 2 ^ 53)\<^sup>2 + 3 * e) * (1 + 1 / 2 ^ 53) \<le>
      100 * ((1 + 1 / 2 ^ 53) / (1 - 1 / 2 ^ 53)\<^sup>2 + 3 * (1 / 2 ^ 53)) * (1 + 1 / 2 ^ 53 :: rat)"
    using assms by (intro mult_right_mono mult_left_mono) simp_all
  also have "\<dots> \<le> 100 + 1 / 10 ^ 13"
    by (simp add: power2_eq_square field_simps)
  finally show "100 * ((1 + 1 / 2 ^ 53) / (1 - 1 / 2 ^ 53)\<^sup>2 + 3 * e) * (1 + 1 / 2 ^ 53) \<le> 100 + 1 / 10 ^ 13" .
qed

text \<open>Every finite result of an operator lies on the grid.\<close>

lemma on_grid_0: "on_grid 0"
  unfolding on_grid_def by (rule exI [of _ 0]) simp

lemma on_grid_add:
  assumes "on_grid a" and "on_grid b"
  shows "on_grid (a + b)"
proof -
  obtain k l :: int where "a = of_int k * 2 powi (e_min - 52)" "b = of_int l * 2 powi (e_min - 52)"
    using assms unfolding on_grid_def by blast
  then have "a + b = of_int (k + l) * 2 powi (e_min - 52)"
    by (simp add: distrib_right)
  then show ?thesis unfolding on_grid_def by blast
qed

lemma on_grid_mult_int:
  assumes "on_grid a"
  shows "on_grid (a * of_int n)"
proof -
  obtain k :: int where "a = of_int k * 2 powi (e_min - 52)"
    using assms unfolding on_grid_def by blast
  then have "a * of_int n = of_int (k * n) * 2 powi (e_min - 52)"
    by simp
  then show ?thesis unfolding on_grid_def by blast
qed

lemma js_add_Num:
  assumes "js_add x y = Num r"
  shows "\<exists>a b. x = Num a \<and> y = Num b \<and> round_double (a + b) = Num r"
  using assms by (cases x; cases y) simp_all

lemma js_mul_Num:
  assumes "js_mul x (Num k) = Num r"
  shows "\<exists>a. x = Num a \<and> round_double (a * k) = Num r"
  using assms by (cases x) (simp_all split: if_splits)

lemma js_mul_on_grid: "js_mul x (Num k) = Num r \<Longrightarrow> on_grid r"
  using js_mul_Num round_double_on_grid by blast

lemma is_double_nonneg:
  assumes "is_double x" and "js_ge x (Num 0)"
  shows "nonneg_double x"
proof (cases x)
  case (Num r)
  then have "on_grid r" and "0 \<le> r"
    using assms round_double_on_grid [of r r] by simp_all
  then show ?thesis
    using on_grid_nonneg Num by simp
qed (use assms in simp_all)

text \<open>A total with a positive double among its summands is not zero.\<close>

lemma foldl_not_zero:
  assumes "nonneg_double a"
    and "\<forall>m \<in> set ms. is_double (f m) \<and> js_ge (f m) (Num 0)"
    and "a \<noteq> Num 0 \<or> (\<exists>m \<in> set ms. js_lt (Num 0) (f m))"
  shows "foldl (\<lambda>sum meal. js_add sum (f meal)) a ms \<noteq> Num 0"
  using assms
proof (induction ms arbitrary: a)
  case Nil
  then show ?case by simp
next
  case (Cons m ms)
  have nm: "nonneg_double (f m)"
    using Cons.prems(2) by (simp add: is_double_nonneg)
  have n: "nonneg_double (js_add a (f m))"
    using Cons.prems(1,2) by (simp add: nonneg_double_add)
  have "js_add a (f m) \<noteq> Num 0 \<or> (\<exists>m \<in> set ms. js_lt (Num 0) (f m))"
  proof (cases "js_add a (f m) = Num 0")
    case True
    then have "a = Num 0" and "f m = Num 0"
      using nonneg_double_add_zero [OF Cons.prems(1) nm] by simp_all
    then show ?thesis
      using Cons.prems(3) by simp
  qed simp
  then show ?case
    using Cons.IH [OF n] Cons.prems(2) by simp
qed

text \<open>When the calories are infinite, every percentage is set to 0.\<close>

lemma percentage_of_infinite:
  assumes "nonneg_double x"
  shows "(if isNaN (js_mul (js_div x PosInfinity) (Num 100)) then Num 0
          else js_mul (js_div x PosInfinity) (Num 100)) = Num 0"
  using assms by (cases x) (simp_all add: round_double_def)

lemma unit_roundoff_bounds: "0 \<le> unit_roundoff" "unit_roundoff < 1"
  by (simp_all add: unit_roundoff_def)

lemma subnormal_error_bounds: "0 \<le> subnormal_error" "subnormal_error \<le> unit_roundoff"
proof -
  show "0 \<le> subnormal_error"
    by (simp add: subnormal_error_def)
  have "(2::rat) powi (e_min - 53) \<le> 2 powi (- 53)"
    by (rule pow2_mono) (simp add: e_min_def)
  then show "subnormal_error \<le> unit_roundoff"
    by (simp add: subnormal_error_def unit_roundoff_def power_int_minus divide_simps)
qed

lemma small_finite:
  assumes "\<bar>x\<bar> \<le> 1000"
  shows "\<exists>r. round_double x = Num r"
proof -
  have "(1000::rat) < 2 powi 10" by simp
  also have "\<dots> \<le> 2 powi (e_inf - 1)"
    by (rule pow2_mono) (simp add: e_inf_def)
  finally have "\<bar>x\<bar> < 2 powi (e_inf - 1)"
    using assms by linarith
  then show ?thesis by (rule round_double_finite)
qed

text \<open>The rounded sum of two doubles that are not negative, when it is finite.\<close>

lemma rounded_sum:
  assumes "on_grid a" and "on_grid b" and "0 \<le> a" and "0 \<le> b"
    and "round_double (a + b) = Num s"
  shows "on_grid s" and "0 \<le> s"
    and "(a + b) * (1 - unit_roundoff) \<le> s" and "s \<le> (a + b) * (1 + unit_roundoff)"
proof -
  show "on_grid s"
    using assms(5) by (rule round_double_on_grid)
  have ab: "0 \<le> a + b" using assms(3,4) by simp
  show "0 \<le> s"
    using round_double_nonneg [OF ab] assms(5) by simp
  have "\<bar>s - (a + b)\<bar> \<le> unit_roundoff * \<bar>a + b\<bar>"
    using on_grid_add [OF assms(1,2)] assms(5) by (rule round_double_grid)
  then show "(a + b) * (1 - unit_roundoff) \<le> s" and "s \<le> (a + b) * (1 + unit_roundoff)"
    using ab by (rule rel_bounds)+
qed

text \<open>One percentage: the quotient by the calories, then the product by 100.\<close>

lemma one_percentage:
  assumes x: "0 \<le> x" and c: "0 < c" and y: "x / c \<le> 2"
  shows "\<exists>p. js_mul (js_div (Num x) (Num c)) (Num 100) = Num p \<and> on_grid p \<and> 0 \<le> p \<and>
    100 * (x / c * (1 - unit_roundoff) - subnormal_error) * (1 - unit_roundoff) \<le> p \<and>
    p \<le> 100 * (x / c * (1 + unit_roundoff) + subnormal_error) * (1 + unit_roundoff)"
proof -
  let ?u = unit_roundoff and ?e = subnormal_error
  note u = unit_roundoff_bounds and e = subnormal_error_bounds
  define y where "y = x / c"
  have y0: "0 \<le> y" using x c by (simp add: y_def)
  have y2: "y \<le> 2" using y by (simp add: y_def)
  have "\<bar>y\<bar> \<le> 1000" using y0 y2 by linarith
  then obtain q where q: "round_double y = Num q"
    using small_finite by blast
  have q0: "0 \<le> q"
    using round_double_nonneg [OF y0] q by simp
  have qe: "\<bar>q - y\<bar> \<le> ?u * \<bar>y\<bar> + ?e"
    using q by (rule round_double_general)
  have "?u * y \<le> 1 * 2"
    using y0 y2 u by (intro mult_mono) simp_all
  moreover have "?e \<le> 1" using e u by linarith
  moreover have "q \<le> y + (?u * y + ?e)"
    using qe y0 by (simp add: abs_le_iff)
  ultimately have "q \<le> 5" using y2 by linarith
  then have "\<bar>q * 100\<bar> \<le> 1000" using q0 by simp
  then obtain p where p: "round_double (q * 100) = Num p"
    using small_finite by blast
  have gq: "on_grid (q * 100)"
    using round_double_on_grid [OF q] on_grid_mult_int [of q 100] by simp
  have pe: "\<bar>p - q * 100\<bar> \<le> ?u * \<bar>q * 100\<bar>"
    using gq p by (rule round_double_grid)
  have p0: "0 \<le> p"
    using round_double_nonneg [of "q * 100"] q0 p by simp
  have js: "js_mul (js_div (Num x) (Num c)) (Num 100) = Num p"
    using c q p by (simp add: y_def)
  note b = percentage_bounds [OF y0 u q0 qe pe]
  show ?thesis
    using js round_double_on_grid [OF p] p0 b unfolding y_def by blast
qed

lemma numeric_bounds_unit:
  shows "100 - 1 / 10 ^ 13 \<le>
      100 * ((1 - unit_roundoff) / (1 + unit_roundoff)\<^sup>2 - 3 * subnormal_error) * (1 - unit_roundoff)"
    and "100 * ((1 + unit_roundoff) / (1 - unit_roundoff)\<^sup>2 + 3 * subnormal_error) * (1 + unit_roundoff)
      \<le> 100 + 1 / 10 ^ 13"
  using numeric_bounds [of subnormal_error] subnormal_error_bounds
  unfolding unit_roundoff_def by simp_all

lemma numeric_bounds_twice:
  fixes l h :: rat
  assumes "100 - 1 / 10 ^ 13 \<le> l" and "h \<le> 100 + 1 / 10 ^ 13"
  shows "100 - 1 / 10 ^ 12 \<le> l * (1 - unit_roundoff)\<^sup>2"
    and "h * (1 + unit_roundoff)\<^sup>2 \<le> 100 + 1 / 10 ^ 12"
proof -
  have "100 - 1 / 10 ^ 12 \<le> (100 - 1 / 10 ^ 13) * (1 - unit_roundoff)\<^sup>2"
    unfolding unit_roundoff_def by (simp add: power2_eq_square field_simps)
  also have "\<dots> \<le> l * (1 - unit_roundoff)\<^sup>2"
    using assms(1) by (intro mult_right_mono) simp_all
  finally show "100 - 1 / 10 ^ 12 \<le> l * (1 - unit_roundoff)\<^sup>2" .
  have "h * (1 + unit_roundoff)\<^sup>2 \<le> (100 + 1 / 10 ^ 13) * (1 + unit_roundoff)\<^sup>2"
    using assms(2) by (intro mult_right_mono) simp_all
  also have "\<dots> \<le> 100 + 1 / 10 ^ 12"
    unfolding unit_roundoff_def by (simp add: power2_eq_square field_simps)
  finally show "h * (1 + unit_roundoff)\<^sup>2 \<le> 100 + 1 / 10 ^ 12" .
qed

lemma within_tolerance:
  fixes x t t' :: rat
  assumes "100 - t \<le> x" and "x \<le> 100 + t" and "t \<le> t'"
  shows "\<bar>x - 100\<bar> \<le> t'"
  using assms by linarith

text \<open>
  The finite case: from the three products \<open>a\<close>, \<open>b\<close>, \<open>d\<close> and the calories \<open>c\<close>
  rounded from them to the three percentages and their sum.
\<close>

lemma percentages_finite:
  assumes a: "on_grid a" "0 \<le> a" and b: "on_grid b" "0 \<le> b" and d: "on_grid d" "0 \<le> d"
    and s: "round_double (a + b) = Num s" and c: "round_double (s + d) = Num c"
    and c0: "c \<noteq> 0"
  shows "\<exists>pa pb pd tot.
    js_mul (js_div (Num a) (Num c)) (Num 100) = Num pa \<and>
    js_mul (js_div (Num b) (Num c)) (Num 100) = Num pb \<and>
    js_mul (js_div (Num d) (Num c)) (Num 100) = Num pd \<and>
    \<bar>pa + pb + pd - 100\<bar> \<le> 1 / 10 ^ 12 \<and>
    js_add (js_add (Num pa) (Num pb)) (Num pd) = Num tot \<and>
    \<bar>tot - 100\<bar> \<le> 1 / 10 ^ 12"
proof -
  let ?u = unit_roundoff and ?e = subnormal_error
  note u = unit_roundoff_bounds
  note rs = rounded_sum [OF a(1) b(1) a(2) b(2) s]
  note rc = rounded_sum [OF rs(1) d(1) rs(2) d(2) c]
  note cb = calories_bounds [OF a(2) b(2) d(2) u rs(3,4) rc(3,4)]
  have t: "0 < a + b + d"
  proof (rule ccontr)
    assume "\<not> 0 < a + b + d"
    then have "a + b + d = 0" using a(2) b(2) d(2) by linarith
    then have "c \<le> 0" using cb(2) by simp
    with rc(2) c0 show False by simp
  qed
  note rb = ratio_bounds [OF t u cb]
  have "1 / (1 - ?u)\<^sup>2 \<le> 2"
    unfolding unit_roundoff_def by (simp add: power2_eq_square field_simps)
  then have tc: "(a + b + d) / c \<le> 2"
    using rb(3) by linarith
  have ya: "a / c \<le> 2" and yb: "b / c \<le> 2" and yd: "d / c \<le> 2"
  proof -
    have "a / c \<le> (a + b + d) / c" "b / c \<le> (a + b + d) / c" "d / c \<le> (a + b + d) / c"
      using a(2) b(2) d(2) rb(1) by (simp_all add: divide_right_mono)
    with tc show "a / c \<le> 2" and "b / c \<le> 2" and "d / c \<le> 2"
      by linarith+
  qed
  obtain pa where pa: "js_mul (js_div (Num a) (Num c)) (Num 100) = Num pa" "on_grid pa" "0 \<le> pa"
    "100 * (a / c * (1 - ?u) - ?e) * (1 - ?u) \<le> pa" "pa \<le> 100 * (a / c * (1 + ?u) + ?e) * (1 + ?u)"
    using one_percentage [OF a(2) rb(1) ya] by blast
  obtain pb where pb: "js_mul (js_div (Num b) (Num c)) (Num 100) = Num pb" "on_grid pb" "0 \<le> pb"
    "100 * (b / c * (1 - ?u) - ?e) * (1 - ?u) \<le> pb" "pb \<le> 100 * (b / c * (1 + ?u) + ?e) * (1 + ?u)"
    using one_percentage [OF b(2) rb(1) yb] by blast
  obtain pd where pd: "js_mul (js_div (Num d) (Num c)) (Num 100) = Num pd" "on_grid pd" "0 \<le> pd"
    "100 * (d / c * (1 - ?u) - ?e) * (1 - ?u) \<le> pd" "pd \<le> 100 * (d / c * (1 + ?u) + ?e) * (1 + ?u)"
    using one_percentage [OF d(2) rb(1) yd] by blast
  note sb = sum_bounds [OF t u rb(1) cb pa(4,5) pb(4,5) pd(4,5)]
  note nb = numeric_bounds_unit
  have lo: "100 - 1 / 10 ^ 13 \<le> pa + pb + pd" and hi: "pa + pb + pd \<le> 100 + 1 / 10 ^ 13"
    using sb nb by linarith+
  have exact: "\<bar>pa + pb + pd - 100\<bar> \<le> 1 / 10 ^ 12"
    using lo hi by (rule within_tolerance) simp
  have hi': "pa + pb + pd \<le> 101"
    using hi by (rule order_trans) simp
  have "\<bar>pa + pb\<bar> \<le> 1000"
    using hi' pa(3) pb(3) pd(3) by linarith
  then obtain t1 where t1: "round_double (pa + pb) = Num t1"
    using small_finite by blast
  note r1 = rounded_sum [OF pa(2) pb(2) pa(3) pb(3) t1]
  have "(pa + pb) * (1 + ?u) \<le> (pa + pb) * 2"
    using pa(3) pb(3) u by (intro mult_left_mono) simp_all
  with r1(4) have "t1 \<le> (pa + pb) * 2"
    by (rule order_trans)
  then have "t1 \<le> 2 * pa + 2 * pb"
    by simp
  then have "\<bar>t1 + pd\<bar> \<le> 1000"
    using r1(2) hi' pa(3) pb(3) pd(3) by linarith
  then obtain tot where tot: "round_double (t1 + pd) = Num tot"
    using small_finite by blast
  note r2 = rounded_sum [OF r1(1) pd(2) r1(2) pd(3) tot]
  note tb = calories_bounds [OF pa(3) pb(3) pd(3) u r1(3,4) r2(3,4)]
  have "(100 - 1 / 10 ^ 13) * (1 - ?u)\<^sup>2 \<le> (pa + pb + pd) * (1 - ?u)\<^sup>2"
    using lo by (intro mult_right_mono) simp_all
  moreover have "(pa + pb + pd) * (1 + ?u)\<^sup>2 \<le> (100 + 1 / 10 ^ 13) * (1 + ?u)\<^sup>2"
    using hi by (intro mult_right_mono) simp_all
  moreover note numeric_bounds_twice [of "100 - 1 / 10 ^ 13" "100 + 1 / 10 ^ 13"]
  ultimately have "100 - 1 / 10 ^ 12 \<le> tot" and "tot \<le> 100 + 1 / 10 ^ 12"
    using tb by linarith+
  then have rounded: "\<bar>tot - 100\<bar> \<le> 1 / 10 ^ 12"
    by (rule within_tolerance) simp
  have "js_add (js_add (Num pa) (Num pb)) (Num pd) = Num tot"
    by (simp add: t1 tot)
  with pa(1) pb(1) pd(1) exact rounded show ?thesis
    by blast
qed

lemma nonneg_double_js_ge: "nonneg_double x \<Longrightarrow> js_ge x (Num 0)"
  using nonneg_double_ge by (cases x) (simp_all add: not_less)

text \<open>The calories of validated doubles are not negative, and not zero when a macro is positive.\<close>

lemma calories_nonneg_not_zero:
  assumes v: "\<forall>m \<in> set ms. is_double (protein m) \<and> is_double (carbs m) \<and> is_double (fat m) \<and>
      js_ge (protein m) (Num 0) \<and> js_ge (carbs m) (Num 0) \<and> js_ge (fat m) (Num 0)"
    and p: "\<exists>m \<in> set ms. js_lt (Num 0) (protein m) \<or> js_lt (Num 0) (carbs m) \<or>
      js_lt (Num 0) (fat m)"
  shows "nonneg_double (js_mul (totalProtein ms) (Num 4))"
    and "nonneg_double (js_mul (totalCarbs ms) (Num 4))"
    and "nonneg_double (js_mul (totalFat ms) (Num 9))"
    and "nonneg_double (totalCalories ms)"
    and "totalCalories ms \<noteq> Num 0"
proof -
  let ?A = "js_mul (totalProtein ms) (Num 4)"
  let ?B = "js_mul (totalCarbs ms) (Num 4)"
  let ?D = "js_mul (totalFat ms) (Num 9)"
  have ge: "\<forall>m \<in> set ms. js_ge (protein m) (Num 0) \<and> js_ge (carbs m) (Num 0) \<and>
      js_ge (fat m) (Num 0)"
    using v by blast
  note t = nonneg_double_totals [OF ge]
  show A: "nonneg_double ?A" and B: "nonneg_double ?B" and D: "nonneg_double ?D"
    using t by (simp_all add: nonneg_double_mul(1))
  have S: "nonneg_double (js_add ?A ?B)"
    using A nonneg_double_js_ge [OF B] by (rule nonneg_double_add)
  then show C: "nonneg_double (totalCalories ms)"
    unfolding totalCalories_def using nonneg_double_js_ge [OF D] by (rule nonneg_double_add)
  have z0: "nonneg_double (Num 0)" by simp
  show "totalCalories ms \<noteq> Num 0"
  proof
    assume "totalCalories ms = Num 0"
    then have "js_add ?A ?B = Num 0" and d: "?D = Num 0"
      using nonneg_double_add_zero [OF S D] by (simp_all add: totalCalories_def)
    then have a: "?A = Num 0" and b: "?B = Num 0"
      using nonneg_double_add_zero [OF A B] by simp_all
    have tp: "totalProtein ms = Num 0" and tc: "totalCarbs ms = Num 0"
      and tf: "totalFat ms = Num 0"
      using a b d t by (auto dest: nonneg_double_mul(2) [rotated -1])
    from p obtain m where m: "m \<in> set ms"
      and "js_lt (Num 0) (protein m) \<or> js_lt (Num 0) (carbs m) \<or> js_lt (Num 0) (fat m)"
      by blast
    then show False
    proof (elim disjE)
      assume "js_lt (Num 0) (protein m)"
      then have "totalProtein ms \<noteq> Num 0"
        unfolding totalProtein_def using v m by (intro foldl_not_zero [OF z0]) auto
      with tp show False by simp
    next
      assume "js_lt (Num 0) (carbs m)"
      then have "totalCarbs ms \<noteq> Num 0"
        unfolding totalCarbs_def using v m by (intro foldl_not_zero [OF z0]) auto
      with tc show False by simp
    next
      assume "js_lt (Num 0) (fat m)"
      then have "totalFat ms \<noteq> Num 0"
        unfolding totalFat_def using v m by (intro foldl_not_zero [OF z0]) auto
      with tf show False by simp
    qed
  qed
qed

text \<open>The protein \<open>2 ^ 1023\<close> is a double; times 4 it overflows.\<close>

lemma whale_totals:
  shows "totalCalories [whale] = PosInfinity"
    and "proteinPercentage [whale] = NaN"
    and "carbsPercentage [whale] = Num 0"
    and "fatPercentage [whale] = Num 0"
proof -
  have z: "round_double 0 = Num 0"
    by (simp add: round_double_def)
  have f1: "round_double (2 powi 1023) = Num (2 powi 1023)"
    by (rule round_double_pow2) (simp_all add: e_min_def e_inf_def)
  have "(2::rat) powi e_inf \<le> 2 powi 1025"
    by (rule pow2_mono) (simp add: e_inf_def)
  also have "(2::rat) powi 1025 = 2 powi 1023 * 2 powi 2"
    by (simp flip: power_int_add)
  finally have "round_double (2 powi 1023 * 2 powi 2) = PosInfinity"
    by (rule round_double_overflow)
  moreover have "(2::rat) powi 2 = 4" by simp
  ultimately have f2: "round_double (2 powi 1023 * 4) = PosInfinity"
    by (simp only:)
  have tp: "totalProtein [whale] = Num (2 powi 1023)"
    unfolding totalProtein_def whale_def
    by (simp del: power_int_numeral add: f1)
  have tc: "totalCarbs [whale] = Num 0" and tf: "totalFat [whale] = Num 0"
    unfolding totalCarbs_def totalFat_def whale_def by (simp_all add: z)
  have a: "js_mul (Num (2 powi 1023)) (Num 4) = PosInfinity"
    by (simp only: js_mul.simps f2)
  have b: "js_mul (Num 0) (Num 4) = Num 0" and d: "js_mul (Num 0) (Num 9) = Num 0"
    and h: "js_mul (Num 0) (Num 100) = Num 0"
    by (simp_all add: z)
  show cal: "totalCalories [whale] = PosInfinity"
    by (simp only: totalCalories_def tp tc tf a b d js_add.simps)
  show "proteinPercentage [whale] = NaN"
    unfolding proteinPercentage_def tp cal a by simp
  show "carbsPercentage [whale] = Num 0"
    unfolding carbsPercentage_def tc cal b by (simp add: z)
  show "fatPercentage [whale] = Num 0"
    unfolding fatPercentage_def tf cal d by (simp add: z)
qed

lemma whale_valid:
  "mealFormSchema whale = Inr whale"
  "is_double (protein whale) \<and> is_double (carbs whale) \<and> is_double (fat whale)"
  "js_lt (Num 0) (protein whale)"
proof -
  have f1: "round_double (2 powi 1023) = Num (2 powi 1023)"
    by (rule round_double_pow2) (simp_all add: e_min_def e_inf_def)
  have pos: "(0::rat) < 2 powi 1023" by (rule pow2_pos)
  then have nneg: "\<not> (2::rat) powi 1023 < 0" by linarith
  have p: "protein whale = Num (2 powi 1023)" "carbs whale = Num 0" "fat whale = Num 0"
    "day whale = str ''monday''" "name whale = str ''Whale''"
    by (simp_all add: whale_def del: power_int_numeral)
  show "mealFormSchema whale = Inr whale"
    unfolding mealFormSchema_def z_enum_def z_string_min2_def z_number_min0_def p using nneg
    by (simp add: day_enum_def str_def del: power_int_numeral)
  have z: "round_double 0 = Num 0"
    by (simp add: round_double_def)
  show "is_double (protein whale) \<and> is_double (carbs whale) \<and> is_double (fat whale)"
    unfolding p by (simp add: f1 z del: power_int_numeral)
  show "js_lt (Num 0) (protein whale)"
    unfolding p using pos by simp
qed

text \<open>
  C2, as the specification states it: whenever the macros are not negative and one of
  them is positive, the three percentages add up to 100 within a tolerance. This fails
  with any tolerance below 100: for a single meal with \<open>2 ^ 1023\<close> grams of protein,
  which passes validation, the product by 4 overflows, the calories are \<open>Infinity\<close>, the
  quotient \<open>Infinity / Infinity\<close> is NaN and is replaced by 0, and all three percentages
  are 0.
\<close>

theorem percentages_sum_overflow:
  "\<not> (\<forall>ms.
        (\<forall>m \<in> set ms. mealFormSchema m = Inr m \<and> is_double (protein m) \<and>
            is_double (carbs m) \<and> is_double (fat m)) \<and>
        (\<exists>m \<in> set ms. js_lt (Num 0) (protein m) \<or> js_lt (Num 0) (carbs m) \<or>
            js_lt (Num 0) (fat m)) \<longrightarrow>
        (\<exists>s' pa pb pd. calculateTotals (str ''monday'') (mondayOf ms) = Inr s' \<and>
            macroPercentages s' = \<lparr>protein_pct = Num pa, carbs_pct = Num pb, fat_pct = Num pd\<rparr> \<and>
            \<bar>pa + pb + pd - 100\<bar> \<le> 1))"
proof
  assume claim: "\<forall>ms.
      (\<forall>m \<in> set ms. mealFormSchema m = Inr m \<and> is_double (protein m) \<and>
          is_double (carbs m) \<and> is_double (fat m)) \<and>
      (\<exists>m \<in> set ms. js_lt (Num 0) (protein m) \<or> js_lt (Num 0) (carbs m) \<or>
          js_lt (Num 0) (fat m)) \<longrightarrow>
      (\<exists>s' pa pb pd. calculateTotals (str ''monday'') (mondayOf ms) = Inr s' \<and>
          macroPercentages s' = \<lparr>protein_pct = Num pa, carbs_pct = Num pb, fat_pct = Num pd\<rparr> \<and>
          \<bar>pa + pb + pd - 100\<bar> \<le> 1)"
  have "\<forall>m \<in> set [whale]. mealFormSchema m = Inr m \<and> is_double (protein m) \<and>
      is_double (carbs m) \<and> is_double (fat m)"
    using whale_valid(1,2) by simp
  moreover have "\<exists>m \<in> set [whale]. js_lt (Num 0) (protein m) \<or> js_lt (Num 0) (carbs m) \<or>
      js_lt (Num 0) (fat m)"
    using whale_valid(3) by simp
  ultimately obtain s' pa pb pd
    where s': "calculateTotals (str ''monday'') (mondayOf [whale]) = Inr s'"
      and m: "macroPercentages s' = \<lparr>protein_pct = Num pa, carbs_pct = Num pb, fat_pct = Num pd\<rparr>"
      and t: "\<bar>pa + pb + pd - 100\<bar> \<le> 1"
    using claim by blast
  have "macroPercentages s' = \<lparr>protein_pct = Num 0, carbs_pct = Num 0, fat_pct = Num 0\<rparr>"
    using s' by (auto simp: calculateTotals_def meals_mondayOf whale_totals)
  with m have "pa = 0" and "pb = 0" and "pd = 0"
    by simp_all
  with t show False by simp
qed

text \<open>
  C2, amended: for a day whose records hold doubles that are not negative, one of them
  positive, \<open>calculateTotals\<close> either finds infinite calories (a product or a sum has
  overflowed) and sets all three percentages to 0, or finds finite positive calories and
  sets three percentages that add up to 100 within \<open>10^-12\<close>, as the exact sum of the
  three doubles and as their sum in double arithmetic. The calories are finite whenever
  the macros are whole numbers and the exact calories stay below \<open>2 ^ 53\<close>.
\<close>

theorem percentages_sum_100:
  assumes "meals s d = Some ms"
    and "\<forall>m \<in> set ms. is_double (protein m) \<and> is_double (carbs m) \<and> is_double (fat m) \<and>
      js_ge (protein m) (Num 0) \<and> js_ge (carbs m) (Num 0) \<and> js_ge (fat m) (Num 0)"
    and "\<exists>m \<in> set ms. js_lt (Num 0) (protein m) \<or> js_lt (Num 0) (carbs m) \<or>
      js_lt (Num 0) (fat m)"
  shows "\<exists>s'. calculateTotals d s = Inr s' \<and>
    (currentCalories s' = PosInfinity \<and>
       macroPercentages s' = \<lparr>protein_pct = Num 0, carbs_pct = Num 0, fat_pct = Num 0\<rparr> \<or>
     (\<exists>c pa pb pd tot.
        currentCalories s' = Num c \<and> 0 < c \<and>
        macroPercentages s' = \<lparr>protein_pct = Num pa, carbs_pct = Num pb, fat_pct = Num pd\<rparr> \<and>
        \<bar>pa + pb + pd - 100\<bar> \<le> 1 / 10 ^ 12 \<and>
        js_add (js_add (Num pa) (Num pb)) (Num pd) = Num tot \<and>
        \<bar>tot - 100\<bar> \<le> 1 / 10 ^ 12)) \<and>
    (\<forall>ps cs fs.
        map protein ms = map (\<lambda>n. Num (of_nat n)) ps \<and>
        map carbs ms = map (\<lambda>n. Num (of_nat n)) cs \<and>
        map fat ms = map (\<lambda>n. Num (of_nat n)) fs \<and>
        sum_list ps * 4 + sum_list cs * 4 + sum_list fs * 9 < 2 ^ 53 \<longrightarrow>
        currentCalories s' =
          Num (of_nat (sum_list ps * 4 + sum_list cs * 4 + sum_list fs * 9)))"
proof -
  let ?A = "js_mul (totalProtein ms) (Num 4)"
  let ?B = "js_mul (totalCarbs ms) (Num 4)"
  let ?D = "js_mul (totalFat ms) (Num 9)"
  obtain s' where s': "calculateTotals d s = Inr s'"
    and cal: "currentCalories s' = totalCalories ms"
    and pct: "macroPercentages s' =
      \<lparr>protein_pct = (if isNaN (proteinPercentage ms) then Num 0 else proteinPercentage ms),
       carbs_pct = (if isNaN (carbsPercentage ms) then Num 0 else carbsPercentage ms),
       fat_pct = (if isNaN (fatPercentage ms) then Num 0 else fatPercentage ms)\<rparr>"
    using assms(1) by (simp add: calculateTotals_def)
  note n = calories_nonneg_not_zero [OF assms(2,3)]
  have exact: "\<forall>ps cs fs.
      map protein ms = map (\<lambda>n. Num (of_nat n)) ps \<and>
      map carbs ms = map (\<lambda>n. Num (of_nat n)) cs \<and>
      map fat ms = map (\<lambda>n. Num (of_nat n)) fs \<and>
      sum_list ps * 4 + sum_list cs * 4 + sum_list fs * 9 < 2 ^ 53 \<longrightarrow>
      currentCalories s' =
        Num (of_nat (sum_list ps * 4 + sum_list cs * 4 + sum_list fs * 9))"
    unfolding cal by (intro allI impI totalCalories_nat_exact) simp_all
  have branch: "currentCalories s' = PosInfinity \<and>
       macroPercentages s' = \<lparr>protein_pct = Num 0, carbs_pct = Num 0, fat_pct = Num 0\<rparr> \<or>
     (\<exists>c pa pb pd tot.
        currentCalories s' = Num c \<and> 0 < c \<and>
        macroPercentages s' = \<lparr>protein_pct = Num pa, carbs_pct = Num pb, fat_pct = Num pd\<rparr> \<and>
        \<bar>pa + pb + pd - 100\<bar> \<le> 1 / 10 ^ 12 \<and>
        js_add (js_add (Num pa) (Num pb)) (Num pd) = Num tot \<and>
        \<bar>tot - 100\<bar> \<le> 1 / 10 ^ 12)"
  proof (cases "totalCalories ms")
    case PosInfinity
    have "macroPercentages s' = \<lparr>protein_pct = Num 0, carbs_pct = Num 0, fat_pct = Num 0\<rparr>"
      unfolding pct proteinPercentage_def carbsPercentage_def fatPercentage_def PosInfinity
      by (simp only: percentage_of_infinite [OF n(1)] percentage_of_infinite [OF n(2)]
          percentage_of_infinite [OF n(3)])
    then show ?thesis
      by (simp add: cal PosInfinity)
  next
    case (Num c)
    have c0: "c \<noteq> 0" using n(5) Num by simp
    have cpos: "0 < c" using nonneg_double_ge [of c] n(4) Num c0 by simp
    obtain sm dd where S: "js_add ?A ?B = Num sm" and D: "?D = Num dd"
      and rc: "round_double (sm + dd) = Num c"
      using js_add_Num [of "js_add ?A ?B" ?D c] Num by (auto simp: totalCalories_def)
    obtain a b where A: "?A = Num a" and B: "?B = Num b" and rs: "round_double (a + b) = Num sm"
      using js_add_Num [OF S] by blast
    have ga: "on_grid a" and gb: "on_grid b" and gd: "on_grid dd"
      using A B D by (simp_all only: js_mul_on_grid)
    have a0: "0 \<le> a" and b0: "0 \<le> b" and d0: "0 \<le> dd"
      using n(1-3) A B D nonneg_double_ge by simp_all
    obtain pa pb pd tot where
      pa: "js_mul (js_div (Num a) (Num c)) (Num 100) = Num pa" and
      pb: "js_mul (js_div (Num b) (Num c)) (Num 100) = Num pb" and
      pd: "js_mul (js_div (Num dd) (Num c)) (Num 100) = Num pd" and
      e1: "\<bar>pa + pb + pd - 100\<bar> \<le> 1 / 10 ^ 12" and
      st: "js_add (js_add (Num pa) (Num pb)) (Num pd) = Num tot" and
      e2: "\<bar>tot - 100\<bar> \<le> 1 / 10 ^ 12"
      using percentages_finite [OF ga a0 gb b0 gd d0 rs rc c0] by blast
    have "macroPercentages s' = \<lparr>protein_pct = Num pa, carbs_pct = Num pb, fat_pct = Num pd\<rparr>"
      unfolding pct proteinPercentage_def carbsPercentage_def fatPercentage_def Num A B D pa pb pd
      by simp
    with cpos e1 st e2 show ?thesis
      by (auto simp: cal Num)
  qed (use n(4) in simp_all)
  show ?thesis
    using s' branch exact by blast
qed

theorem percentages_sum_100_witness:
  "\<exists>s' pa pb pd tot.
     calculateTotals (str ''monday'') (mondayOf [lunch, snack]) = Inr s' \<and>
     currentCalories s' = Num 750 \<and>
     macroPercentages s' = \<lparr>protein_pct = Num pa, carbs_pct = Num pb, fat_pct = Num pd\<rparr> \<and>
     \<bar>pa + pb + pd - 100\<bar> \<le> 1 / 10 ^ 12 \<and>
     js_add (js_add (Num pa) (Num pb)) (Num pd) = Num tot \<and>
     \<bar>tot - 100\<bar> \<le> 1 / 10 ^ 12"
proof -
  have v: "\<forall>m \<in> set [lunch, snack].
      is_double (protein m) \<and> is_double (carbs m) \<and> is_double (fat m) \<and>
      js_ge (protein m) (Num 0) \<and> js_ge (carbs m) (Num 0) \<and> js_ge (fat m) (Num 0)"
    by (simp add: lunch_def snack_def round_double_numeral)
  have p: "\<exists>m \<in> set [lunch, snack].
      js_lt (Num 0) (protein m) \<or> js_lt (Num 0) (carbs m) \<or> js_lt (Num 0) (fat m)"
    by (simp add: lunch_def)
  have q: "map protein [lunch, snack] = map (\<lambda>n. Num (of_nat n)) [50, 10] \<and>
      map carbs [lunch, snack] = map (\<lambda>n. Num (of_nat n)) [50, 10] \<and>
      map fat [lunch, snack] = map (\<lambda>n. Num (of_nat n)) [20, 10] \<and>
      sum_list [50, 10] * 4 + sum_list [50, 10] * 4 + sum_list [20, 10] * 9 < (2::nat) ^ 53"
    by (simp add: lunch_def snack_def)
  obtain s' where s': "calculateTotals (str ''monday'') (mondayOf [lunch, snack]) = Inr s'"
    and branch: "currentCalories s' = PosInfinity \<and>
       macroPercentages s' = \<lparr>protein_pct = Num 0, carbs_pct = Num 0, fat_pct = Num 0\<rparr> \<or>
     (\<exists>c pa pb pd tot.
        currentCalories s' = Num c \<and> 0 < c \<and>
        macroPercentages s' = \<lparr>protein_pct = Num pa, carbs_pct = Num pb, fat_pct = Num pd\<rparr> \<and>
        \<bar>pa + pb + pd - 100\<bar> \<le> 1 / 10 ^ 12 \<and>
        js_add (js_add (Num pa) (Num pb)) (Num pd) = Num tot \<and>
        \<bar>tot - 100\<bar> \<le> 1 / 10 ^ 12)"
    and exact: "\<forall>ps cs fs.
        map protein [lunch, snack] = map (\<lambda>n. Num (of_nat n)) ps \<and>
        map carbs [lunch, snack] = map (\<lambda>n. Num (of_nat n)) cs \<and>
        map fat [lunch, snack] = map (\<lambda>n. Num (of_nat n)) fs \<and>
        sum_list ps * 4 + sum_list cs * 4 + sum_list fs * 9 < 2 ^ 53 \<longrightarrow>
        currentCalories s' =
          Num (of_nat (sum_list ps * 4 + sum_list cs * 4 + sum_list fs * 9))"
    using percentages_sum_100 [OF meals_mondayOf v p] by blast
  from exact q have "currentCalories s' =
      Num (of_nat (sum_list [50, 10] * 4 + sum_list [50, 10] * 4 + sum_list [20, 10] * 9))"
    by blast
  then have c: "currentCalories s' = Num 750"
    by simp
  with branch s' show ?thesis
    by auto
qed

section \<open>Validation\<close>

lemma day_enum_DAYS: "day_enum = DAYS"
  by (simp add: day_enum_def DAYS_def)

lemma z_number_min0_Nil: "z_number_min0 k x = [] \<longleftrightarrow> js_ge x (Num 0)"
  by (cases x) (simp_all add: z_number_min0_def)

text \<open>The parse succeeds exactly on the candidates that satisfy all five rules.\<close>

lemma mealFormSchema_Inr:
  "mealFormSchema c = Inr v \<longleftrightarrow>
     v = c \<and> day c \<in> set DAYS \<and> 2 \<le> length (name c) \<and>
     js_ge (protein c) (Num 0) \<and> js_ge (carbs c) (Num 0) \<and> js_ge (fat c) (Num 0)"
  by (auto simp: mealFormSchema_def Let_def z_enum_def z_string_min2_def z_number_min0_Nil
      day_enum_DAYS)

lemma mealFormSchema_issues:
  "mealFormSchema c = Inl es \<Longrightarrow>
     es = z_enum (day c) @ z_string_min2 (name c) @ z_number_min0 Key_protein (protein c) @
          z_number_min0 Key_carbs (carbs c) @ z_number_min0 Key_fat (fat c)"
  by (simp add: mealFormSchema_def Let_def split: if_splits)

lemma mealFormSchema_Inl_ex: "(\<exists>es. mealFormSchema c = Inl es) \<longleftrightarrow> mealFormSchema c \<noteq> Inr c"
  by (auto simp: mealFormSchema_def Let_def)

lemma NameTooShort_in_validate:
  "(\<exists>es. mealFormSchema c = Inl es \<and> NameTooShort \<in> set es) \<longleftrightarrow> length (name c) < 2"
  by (auto simp: mealFormSchema_def Let_def z_enum_def z_string_min2_def z_number_min0_def
      NameTooShort_def InvalidDay_def NegativeMacro_def)

text \<open>The entry of the form's \<open>errors\<close> for a key is the code of the first issue at it.\<close>

lemma parseErrorSchema_lookup:
  "parseErrorSchema es errs k =
     (case errs k of
        Some t \<Rightarrow> Some t
      | None \<Rightarrow> map_option code (find (\<lambda>e. path e = k) es))"
  by (induction es arbitrary: errs) (auto split: option.splits)

lemma find_z_number_min0:
  "find (\<lambda>e. path e = k) (z_number_min0 k' x) =
     (if k = k' then (case z_number_min0 k' x of [] \<Rightarrow> None | e # es \<Rightarrow> Some e) else None)"
  by (simp add: z_number_min0_def NegativeMacro_def)

lemma find_app:
  "find P (xs @ ys) = (case find P xs of None \<Rightarrow> find P ys | Some x \<Rightarrow> Some x)"
  by (induction xs) auto

lemma negative_macro: "js_lt x (Num 0) \<Longrightarrow> z_number_min0 k x = [NegativeMacro k]"
  by (cases x) (simp_all add: z_number_min0_def)

lemma rejected_protein:
  assumes "js_lt (protein c) (Num 0)"
  shows "\<exists>es. mealFormSchema c = Inl es \<and> NegativeMacro Key_protein \<in> set es \<and>
     parseErrorSchema es Map.empty Key_protein = Some too_small"
proof -
  have "mealFormSchema c \<noteq> Inr c"
    using assms by (cases "protein c") (auto simp: mealFormSchema_Inr)
  then obtain es where es: "mealFormSchema c = Inl es"
    using mealFormSchema_Inl_ex by blast
  note iss = mealFormSchema_issues [OF es]
  have "NegativeMacro Key_protein \<in> set es"
    by (simp add: iss negative_macro [OF assms])
  moreover have "parseErrorSchema es Map.empty Key_protein = Some too_small"
    by (simp add: iss parseErrorSchema_lookup find_app negative_macro [OF assms]
        z_enum_def z_string_min2_def InvalidDay_def NameTooShort_def NegativeMacro_def)
  ultimately show ?thesis using es by blast
qed

lemma rejected_carbs:
  assumes "js_lt (carbs c) (Num 0)"
  shows "\<exists>es. mealFormSchema c = Inl es \<and> NegativeMacro Key_carbs \<in> set es \<and>
     parseErrorSchema es Map.empty Key_carbs = Some too_small"
proof -
  have "mealFormSchema c \<noteq> Inr c"
    using assms by (cases "carbs c") (auto simp: mealFormSchema_Inr)
  then obtain es where es: "mealFormSchema c = Inl es"
    using mealFormSchema_Inl_ex by blast
  note iss = mealFormSchema_issues [OF es]
  have "NegativeMacro Key_carbs \<in> set es"
    by (simp add: iss negative_macro [OF assms])
  moreover have "parseErrorSchema es Map.empty Key_carbs = Some too_small"
    by (simp add: iss parseErrorSchema_lookup find_app find_z_number_min0
        negative_macro [OF assms] z_enum_def z_string_min2_def InvalidDay_def
        NameTooShort_def NegativeMacro_def)
  ultimately show ?thesis using es by blast
qed

lemma rejected_fat:
  assumes "js_lt (fat c) (Num 0)"
  shows "\<exists>es. mealFormSchema c = Inl es \<and> NegativeMacro Key_fat \<in> set es \<and>
     parseErrorSchema es Map.empty Key_fat = Some too_small"
proof -
  have "mealFormSchema c \<noteq> Inr c"
    using assms by (cases "fat c") (auto simp: mealFormSchema_Inr)
  then obtain es where es: "mealFormSchema c = Inl es"
    using mealFormSchema_Inl_ex by blast
  note iss = mealFormSchema_issues [OF es]
  have "NegativeMacro Key_fat \<in> set es"
    by (simp add: iss negative_macro [OF assms])
  moreover have "parseErrorSchema es Map.empty Key_fat = Some too_small"
    by (simp add: iss parseErrorSchema_lookup find_app find_z_number_min0
        negative_macro [OF assms] z_enum_def z_string_min2_def InvalidDay_def
        NameTooShort_def NegativeMacro_def)
  ultimately show ?thesis using es by blast
qed

section \<open>The ledger\<close>

lemma dom_initialMeals: "dom initialMeals = set DAYS"
  by (auto simp: initialMeals_def DAYS_def)

lemma initialMeals_Some: "d \<in> set DAYS \<Longrightarrow> initialMeals d = Some []"
  by (auto simp: initialMeals_def DAYS_def)

lemma onSubmit_Inr:
  "onSubmit r s = Inr s' \<longleftrightarrow>
     (\<exists>prev. meals s (day r) = Some prev \<and>
        s' = s\<lparr>meals := (meals s)(day r \<mapsto> prev @ [r]), errors := Map.empty\<rparr>)"
  by (auto simp: onSubmit_def split: option.splits)

lemma calculateTotals_meals: "calculateTotals d s = Inr s' \<Longrightarrow> meals s' = meals s"
  by (auto simp: calculateTotals_def split: option.splits)

text \<open>A submission either leaves the ledger as it is or is \<open>onSubmit\<close> of a valid record.\<close>

lemma handleSubmit_cases:
  assumes "handleSubmit c s = Inr s'"
  shows "meals s' = meals s \<or> (mealFormSchema c = Inr c \<and> onSubmit c s = Inr s')"
  using assms
  by (cases "mealFormSchema c") (auto simp: handleSubmit_def mealFormSchema_Inr)

lemma onSubmits_same_day:
  assumes "meals s d = Some xs" and "\<forall>r \<in> set rs. day r = d"
  shows "\<exists>s'. onSubmits rs s = Inr s' \<and> meals s' d = Some (xs @ rs) \<and>
          (\<forall>d'. d' \<noteq> d \<longrightarrow> meals s' d' = meals s d')"
  using assms
proof (induction rs arbitrary: s xs)
  case Nil
  then show ?case by simp
next
  case (Cons r rs)
  let ?s1 = "s\<lparr>meals := (meals s)(d \<mapsto> xs @ [r]), errors := Map.empty\<rparr>"
  have r: "day r = d"
    using Cons.prems(2) by simp
  have step: "onSubmit r s = Inr ?s1"
    using Cons.prems(1) r by (simp add: onSubmit_Inr)
  have "meals ?s1 d = Some (xs @ [r])"
    by simp
  moreover have "\<forall>r \<in> set rs. day r = d"
    using Cons.prems(2) by simp
  ultimately obtain s' where s': "onSubmits rs ?s1 = Inr s'"
    "meals s' d = Some ((xs @ [r]) @ rs)"
    "\<forall>d'. d' \<noteq> d \<longrightarrow> meals s' d' = meals ?s1 d'"
    using Cons.IH by blast
  show ?case
    using step s' by simp
qed

lemma ledger_valid_initial: "ledger_valid initialMeals"
  by (auto simp: ledger_valid_def initialMeals_def split: if_splits)

lemma ledger_valid_onSubmit:
  assumes "ledger_valid (meals s)" and "valid r" and "onSubmit r s = Inr s'"
  shows "ledger_valid (meals s')"
  using assms
  by (auto simp: onSubmit_Inr ledger_valid_def split: if_splits)

lemma reachable_ledger_valid: "reachable s \<Longrightarrow> ledger_valid (meals s)"
proof (induction rule: reachable.induct)
  case init
  show ?case by (simp add: initialState_def ledger_valid_initial)
next
  case (submit s c s')
  from handleSubmit_cases [OF submit.hyps(2)] show ?case
  proof
    assume "meals s' = meals s"
    with submit.IH show ?thesis by simp
  next
    assume "mealFormSchema c = Inr c \<and> onSubmit c s = Inr s'"
    then show ?thesis
      using submit.IH ledger_valid_onSubmit [of s c s'] by (simp add: mealFormSchema_Inr valid_def)
  qed
next
  case (select s d)
  then show ?case by (simp add: onValueChange_def)
next
  case (effect s s')
  then show ?case by (simp add: useEffect_def calculateTotals_meals)
qed

text \<open>Every reachable ledger has exactly the seven keys.\<close>

lemma reachable_dom: "reachable s \<Longrightarrow> dom (meals s) = set DAYS"
proof (induction rule: reachable.induct)
  case init
  show ?case by (simp add: initialState_def dom_initialMeals)
next
  case (submit s c s')
  from handleSubmit_cases [OF submit.hyps(2)] show ?case
  proof
    assume "meals s' = meals s"
    with submit.IH show ?thesis by simp
  next
    assume "mealFormSchema c = Inr c \<and> onSubmit c s = Inr s'"
    then obtain prev where p: "meals s (day c) = Some prev"
      and s': "meals s' = (meals s)(day c \<mapsto> prev @ [c])"
      by (auto simp: onSubmit_Inr)
    from p have "day c \<in> dom (meals s)" by blast
    then have "dom (meals s') = dom (meals s)"
      unfolding s' by (simp add: insert_absorb)
    with submit.IH show ?thesis by simp
  qed
next
  case (select s d)
  then show ?case by (simp add: onValueChange_def)
next
  case (effect s s')
  then show ?case by (simp add: useEffect_def calculateTotals_meals)
qed

lemma monday_DAYS: "str ''monday'' \<in> set DAYS"
  by (simp add: DAYS_def)

lemma reachable_currentDay: "reachable s \<Longrightarrow> currentDay s \<in> set DAYS"
proof (induction rule: reachable.induct)
  case init
  show ?case by (simp add: initialState_def monday_DAYS)
next
  case (submit s c s')
  then show ?case
    by (cases "mealFormSchema c") (auto simp: handleSubmit_def onSubmit_Inr)
next
  case (select s d)
  then show ?case by (simp add: onValueChange_def)
next
  case (effect s s')
  then show ?case
    by (auto simp: useEffect_def calculateTotals_def split: option.splits)
qed

text \<open>
  In a reachable state nothing throws: the effect returns, and a submission returns
  whatever the candidate is.
\<close>

lemma reachable_no_throw:
  assumes "reachable s"
  shows "(\<exists>s'. useEffect s = Inr s') \<and> (\<exists>s'. handleSubmit c s = Inr s')"
proof -
  have d: "dom (meals s) = set DAYS"
    using assms by (rule reachable_dom)
  have "currentDay s \<in> dom (meals s)"
    using reachable_currentDay [OF assms] d by simp
  then have e: "\<exists>s'. useEffect s = Inr s'"
    by (auto simp: useEffect_def calculateTotals_def)
  have "\<exists>s'. handleSubmit c s = Inr s'"
  proof (cases "mealFormSchema c")
    case (Inl issues)
    then show ?thesis by (simp add: handleSubmit_def)
  next
    case (Inr v)
    then have "day v \<in> dom (meals s)"
      using d by (simp add: mealFormSchema_Inr)
    with Inr show ?thesis
      by (auto simp: handleSubmit_def onSubmit_Inr)
  qed
  with e show ?thesis by blast
qed

lemma mealFormSchema_lunch: "mealFormSchema lunch = Inr lunch"
  by (simp add: mealFormSchema_Inr lunch_def DAYS_def str_def)

lemma mealFormSchema_snack: "mealFormSchema snack = Inr snack"
  by (simp add: mealFormSchema_Inr snack_def DAYS_def str_def)

lemma mealFormSchema_water: "mealFormSchema water = Inr water"
  by (simp add: mealFormSchema_Inr water_def DAYS_def str_def)

text \<open>
  C4. In the initial ledger every one of the seven days holds the empty list. After
  \<open>onSubmit\<close> was called on valid records \<open>rs\<close>, one after the other, all of day \<open>d\<close>,
  the list of \<open>d\<close> is \<open>rs\<close>: those records, in the order of the calls (so its length is
  the number of calls). Nothing else changes the ledger: selecting a tab and
  \<open>calculateTotals\<close> leave it as it is, and a submission of the form that changes it
  is \<open>onSubmit\<close> of a record that passed validation.
\<close>

theorem onSubmit_appends_in_order:
  assumes "d \<in> set DAYS" and "\<forall>r \<in> set rs. mealFormSchema r = Inr r \<and> day r = d"
  shows "(\<forall>d' \<in> set DAYS. meals initialState d' = Some []) \<and>
    (\<exists>s'. onSubmits rs initialState = Inr s' \<and> meals s' d = Some rs) \<and>
    (\<forall>s d'. meals (onValueChange d' s) = meals s) \<and>
    (\<forall>s d' s'. calculateTotals d' s = Inr s' \<longrightarrow> meals s' = meals s) \<and>
    (\<forall>s c s'. handleSubmit c s = Inr s' \<longrightarrow>
        meals s' = meals s \<or> (mealFormSchema c = Inr c \<and> onSubmit c s = Inr s'))"
proof -
  have "meals initialState d = Some []"
    using assms(1) by (simp add: initialState_def initialMeals_Some)
  moreover have "\<forall>r \<in> set rs. day r = d"
    using assms(2) by simp
  ultimately have "\<exists>s'. onSubmits rs initialState = Inr s' \<and> meals s' d = Some rs"
    using onSubmits_same_day [of initialState d "[]" rs] by auto
  then show ?thesis
    by (auto simp: initialState_def initialMeals_Some onValueChange_def
        dest: calculateTotals_meals handleSubmit_cases)
qed

theorem onSubmit_appends_in_order_witness:
  "\<exists>s'. onSubmits [snack, water] initialState = Inr s' \<and>
     meals s' (str ''monday'') = Some [snack, water]"
proof -
  have v: "\<forall>r \<in> set [snack, water]. mealFormSchema r = Inr r \<and> day r = str ''monday''"
    using mealFormSchema_snack mealFormSchema_water by (simp add: snack_def water_def)
  show ?thesis
    using onSubmit_appends_in_order [OF monday_DAYS v] by blast
qed

text \<open>
  C5. In every reachable state, every record the ledger stores satisfies the
  validation rules: its day is one of the seven, its name has at least 2 code units,
  and its protein, carbs and fat are each \<open>>= 0\<close>.
\<close>

theorem reachable_records_valid:
  assumes "reachable s" and "meals s d = Some xs" and "m \<in> set xs"
  shows "day m \<in> set DAYS \<and> 2 \<le> length (name m) \<and>
     js_ge (protein m) (Num 0) \<and> js_ge (carbs m) (Num 0) \<and> js_ge (fat m) (Num 0)"
proof -
  have "ledger_valid (meals s)"
    using assms(1) by (rule reachable_ledger_valid)
  then have "valid m"
    using assms(2,3) unfolding ledger_valid_def by blast
  then show ?thesis
    by (simp add: valid_def)
qed

theorem reachable_records_valid_witness:
  "day lunch \<in> set DAYS \<and> 2 \<le> length (name lunch) \<and>
     js_ge (protein lunch) (Num 0) \<and> js_ge (carbs lunch) (Num 0) \<and> js_ge (fat lunch) (Num 0)"
proof -
  let ?s = "initialState\<lparr>meals := initialMeals(str ''monday'' \<mapsto> [lunch]), errors := Map.empty\<rparr>"
  have "handleSubmit lunch initialState = Inr ?s"
    by (simp add: handleSubmit_def mealFormSchema_lunch onSubmit_def)
      (simp add: lunch_def initialState_def initialMeals_def)
  then have r: "reachable ?s"
    by (rule reachable.submit [OF reachable.init])
  have m: "meals ?s (str ''monday'') = Some [lunch]"
    by simp
  have i: "lunch \<in> set [lunch]"
    by simp
  show ?thesis
    by (rule reachable_records_valid [OF r m i])
qed

text \<open>
  C6. Validation reports \<open>NameTooShort\<close> exactly when the name has fewer than 2 code
  units. It reports it for the name \<open>A\<close>, whatever the other fields are; with the name
  \<open>AB\<close> the candidate is accepted exactly when the other rules pass.
\<close>

theorem name_too_short_iff:
  "((\<exists>es. mealFormSchema c = Inl es \<and> NameTooShort \<in> set es) \<longleftrightarrow> length (name c) < 2) \<and>
   (\<exists>es. mealFormSchema (c\<lparr>name := str ''A''\<rparr>) = Inl es \<and> NameTooShort \<in> set es) \<and>
   (mealFormSchema (c\<lparr>name := str ''AB''\<rparr>) = Inr (c\<lparr>name := str ''AB''\<rparr>) \<longleftrightarrow>
      day c \<in> set DAYS \<and> js_ge (protein c) (Num 0) \<and> js_ge (carbs c) (Num 0) \<and>
      js_ge (fat c) (Num 0))"
proof -
  have "length (name (c\<lparr>name := str ''A''\<rparr>)) < 2"
    by (simp add: str_def)
  then have "\<exists>es. mealFormSchema (c\<lparr>name := str ''A''\<rparr>) = Inl es \<and> NameTooShort \<in> set es"
    by (simp only: NameTooShort_in_validate)
  then show ?thesis
    by (simp add: NameTooShort_in_validate mealFormSchema_Inr str_def)
qed

theorem name_too_short_iff_witness:
  "(\<exists>es. mealFormSchema (lunch\<lparr>name := str ''A''\<rparr>) = Inl es \<and> NameTooShort \<in> set es) \<and>
   mealFormSchema (lunch\<lparr>name := str ''AB''\<rparr>) = Inr (lunch\<lparr>name := str ''AB''\<rparr>)"
proof -
  have "day lunch \<in> set DAYS \<and> js_ge (protein lunch) (Num 0) \<and> js_ge (carbs lunch) (Num 0) \<and>
      js_ge (fat lunch) (Num 0)"
    by (simp add: lunch_def DAYS_def)
  then show ?thesis
    using name_too_short_iff [of lunch] by blast
qed

text \<open>
  C7. A candidate whose protein, carbs or fat is negative is rejected, and the issue
  names the offending key: the issues hold \<open>NegativeMacro\<close> of that key, and the
  form's \<open>errors\<close> has the entry \<open>too_small\<close> under that key, whatever else is wrong
  with the candidate. In particular protein \<open>-1\<close> is rejected with
  \<open>NegativeMacro\<close> of \<open>protein\<close>.
\<close>

theorem negative_macro_per_field:
  "(js_lt (protein c) (Num 0) \<longrightarrow>
      (\<exists>es. mealFormSchema c = Inl es \<and> NegativeMacro Key_protein \<in> set es \<and>
         parseErrorSchema es Map.empty Key_protein = Some too_small)) \<and>
   (js_lt (carbs c) (Num 0) \<longrightarrow>
      (\<exists>es. mealFormSchema c = Inl es \<and> NegativeMacro Key_carbs \<in> set es \<and>
         parseErrorSchema es Map.empty Key_carbs = Some too_small)) \<and>
   (js_lt (fat c) (Num 0) \<longrightarrow>
      (\<exists>es. mealFormSchema c = Inl es \<and> NegativeMacro Key_fat \<in> set es \<and>
         parseErrorSchema es Map.empty Key_fat = Some too_small)) \<and>
   (\<exists>es. mealFormSchema (c\<lparr>protein := Num (- 1)\<rparr>) = Inl es \<and> NegativeMacro Key_protein \<in> set es)"
proof -
  have "js_lt (protein (c\<lparr>protein := Num (- 1)\<rparr>)) (Num 0)"
    by simp
  from rejected_protein [OF this]
  have "\<exists>es. mealFormSchema (c\<lparr>protein := Num (- 1)\<rparr>) = Inl es \<and> NegativeMacro Key_protein \<in> set es"
    by blast
  then show ?thesis
    using rejected_protein [of c] rejected_carbs [of c] rejected_fat [of c] by blast
qed

theorem negative_macro_per_field_witness:
  "\<exists>es. mealFormSchema (lunch\<lparr>carbs := Num (- 3)\<rparr>) = Inl es \<and> NegativeMacro Key_carbs \<in> set es \<and>
     parseErrorSchema es Map.empty Key_carbs = Some too_small"
proof -
  have "js_lt (carbs (lunch\<lparr>carbs := Num (- 3)\<rparr>)) (Num 0)"
    by simp
  then show ?thesis
    using negative_macro_per_field [of "lunch\<lparr>carbs := Num (- 3)\<rparr>"] by blast
qed

text \<open>
  C8. Validation accepts every candidate whose day is one of the seven, whose name has
  at least 2 code units and whose macros are each \<open>>= 0\<close>; nothing bounds a macro from
  above. Validation computes its result from the candidate alone, and a submission that
  fails it leaves the ledger as it was.
\<close>

theorem mealFormSchema_accepts:
  "(day c \<in> set DAYS \<and> 2 \<le> length (name c) \<and>
      js_ge (protein c) (Num 0) \<and> js_ge (carbs c) (Num 0) \<and> js_ge (fat c) (Num 0)
      \<longrightarrow> mealFormSchema c = Inr c) \<and>
   (\<forall>es. mealFormSchema c = Inl es \<longrightarrow>
      (\<exists>s'. handleSubmit c s = Inr s' \<and> meals s' = meals s))"
  by (auto simp: mealFormSchema_Inr handleSubmit_def)

theorem mealFormSchema_accepts_witness:
  "mealFormSchema feast = Inr feast \<and>
   (\<exists>s'. handleSubmit (feast\<lparr>name := []\<rparr>) (mondayOf [lunch]) = Inr s' \<and>
      meals s' = meals (mondayOf [lunch]))"
proof -
  have "day feast \<in> set DAYS \<and> 2 \<le> length (name feast) \<and>
      js_ge (protein feast) (Num 0) \<and> js_ge (carbs feast) (Num 0) \<and> js_ge (fat feast) (Num 0)"
    by (simp add: feast_def DAYS_def str_def)
  moreover have "\<exists>es. mealFormSchema (feast\<lparr>name := []\<rparr>) = Inl es"
    by (simp add: mealFormSchema_Inl_ex mealFormSchema_Inr)
  ultimately show ?thesis
    using mealFormSchema_accepts [of feast] mealFormSchema_accepts [of "feast\<lparr>name := []\<rparr>" "mondayOf [lunch]"]
    by blast
qed

text \<open>
  C9. \<open>onSubmit\<close> of a record changes the list of the record's day only: the list of
  every other day is what it was. On a ledger with the seven keys, \<open>onSubmit\<close> of a
  valid record does return.
\<close>

theorem onSubmit_frame:
  "(\<forall>s'. onSubmit r s = Inr s' \<longrightarrow> (\<forall>d. d \<noteq> day r \<longrightarrow> meals s' d = meals s d)) \<and>
   (dom (meals s) = set DAYS \<and> mealFormSchema r = Inr r \<longrightarrow> (\<exists>s'. onSubmit r s = Inr s'))"
proof -
  have "\<exists>s'. onSubmit r s = Inr s'" if "dom (meals s) = set DAYS" and "mealFormSchema r = Inr r"
  proof -
    have "day r \<in> dom (meals s)"
      using that by (simp add: mealFormSchema_Inr)
    then show ?thesis
      by (auto simp: onSubmit_Inr)
  qed
  then show ?thesis
    by (auto simp: onSubmit_Inr)
qed

theorem onSubmit_frame_witness:
  "\<exists>s'. onSubmit snack (mondayOf [lunch]) = Inr s' \<and>
     meals s' (str ''tuesday'') = meals (mondayOf [lunch]) (str ''tuesday'') \<and>
     meals s' (str ''sunday'') = meals (mondayOf [lunch]) (str ''sunday'')"
proof -
  have d: "dom (meals (mondayOf [lunch])) = set DAYS"
    by (simp add: mondayOf_def dom_initialMeals insert_absorb monday_DAYS)
  have t: "str ''tuesday'' \<noteq> day snack" and u: "str ''sunday'' \<noteq> day snack"
    by (simp_all add: snack_def str_def)
  show ?thesis
    using onSubmit_frame [of snack "mondayOf [lunch]"] d mealFormSchema_snack t u by blast
qed

section \<open>References: what \<open>meals[day]\<close> returns\<close>

text \<open>The initial object and its seven arrays hold the initial ledger.\<close>

lemma stored_initial: "stored initialHeap initialMealsRef = initialMeals"
  by (rule ext)
    (simp add: stored_def mealsFor_def deref_def initialHeap_def initialMealsRef_def
      initialMeals_def str_def)

lemma wf_refs_initial: "wf_refs initialHeap initialMealsRef"
  by (simp add: wf_refs_def initialHeap_def initialMealsRef_def split: if_splits)

text \<open>
  \<open>onSubmit\<close> on lists is \<open>onSubmit\<close> on references seen through \<open>stored\<close>, and the
  component leaves every array it had allocated as it was.
\<close>

lemma onSubmit_ref_refines:
  assumes wf: "wf_refs h ms" and abs: "meals s = stored h ms"
  shows "(onSubmit values s = Inl TypeError \<longrightarrow> onSubmit_ref values (h, ms) = Inl TypeError) \<and>
    (\<forall>s'. onSubmit values s = Inr s' \<longrightarrow>
       (\<exists>h' ms'. onSubmit_ref values (h, ms) = Inr (h', ms') \<and> meals s' = stored h' ms' \<and>
          wf_refs h' ms' \<and> (\<forall>a < length h. deref h' a = deref h a)))"
proof (cases "ms (day values)")
  case None
  then show ?thesis
    by (simp add: onSubmit_def onSubmit_ref_def abs stored_def mealsFor_def)
next
  case (Some a)
  then have a: "a < length h"
    using wf by (simp add: wf_refs_def)
  let ?h = "h @ [h ! a @ [values]]"
  let ?ms = "ms(day values \<mapsto> length h)"
  have ref: "onSubmit_ref values (h, ms) = Inr (?h, ?ms)"
    using Some a by (simp add: onSubmit_ref_def deref_def)
  have val: "onSubmit values s =
      Inr (s\<lparr>meals := (meals s)(day values \<mapsto> h ! a @ [values]), errors := Map.empty\<rparr>)"
    using Some a by (simp add: onSubmit_def abs stored_def mealsFor_def deref_def)
  have "(stored h ms)(day values \<mapsto> h ! a @ [values]) = stored ?h ?ms"
  proof (rule ext)
    fix d
    show "((stored h ms)(day values \<mapsto> h ! a @ [values])) d = stored ?h ?ms d"
    proof (cases "d = day values")
      case True
      then show ?thesis
        by (simp add: stored_def mealsFor_def deref_def)
    next
      case False
      show ?thesis
      proof (cases "ms d")
        case None
        with False show ?thesis
          by (simp add: stored_def mealsFor_def)
      next
        case (Some b)
        then have "b < length h"
          using wf by (simp add: wf_refs_def)
        with False Some show ?thesis
          by (simp add: stored_def mealsFor_def deref_def nth_append)
      qed
    qed
  qed
  moreover have "wf_refs ?h ?ms"
    using wf by (auto simp: wf_refs_def less_Suc_eq)
  moreover have "\<forall>b < length h. deref ?h b = deref h b"
    by (simp add: deref_def nth_append)
  ultimately show ?thesis
    using ref val abs by simp
qed

text \<open>
  C10, as the specification states it: whatever a caller pushes onto the array that
  \<open>meals[day]\<close> returned, the ledger holds what it held. This fails: the array is the
  stored one. In the initial state, pushing a meal onto the array returned for monday
  makes the ledger hold that meal under monday.
\<close>

theorem meals_read_not_defensive_copy:
  "\<not> (\<forall>h ms d a m. mealsFor ms d = Some a \<longrightarrow>
         stored (array_push a m h) ms d = stored h ms d)"
proof
  assume claim: "\<forall>h ms d a m. mealsFor ms d = Some a \<longrightarrow>
      stored (array_push a m h) ms d = stored h ms d"
  have "mealsFor initialMealsRef (str ''monday'') = Some 0"
    by (simp add: mealsFor_def initialMealsRef_def str_def)
  with claim have "stored (array_push 0 lunch initialHeap) initialMealsRef (str ''monday'')
      = stored initialHeap initialMealsRef (str ''monday'')"
    by blast
  then show False
    by (simp add: stored_def mealsFor_def deref_def array_push_def initialHeap_def
        initialMealsRef_def str_def)
qed

text \<open>
  C10, amended: \<open>meals[day]\<close> returns the reference to the stored array of that day, so
  reading through it gives the current list of the day, and the reader of the component,
  \<open>calculateTotals\<close>, leaves the ledger as it is. The array is not a copy: a push
  through the returned reference appends to the list the ledger holds.
\<close>

theorem meals_read_is_stored_array:
  "(\<forall>a. mealsFor ms d = Some a \<longrightarrow> stored h ms d = deref h a) \<and>
   (\<forall>s s'. calculateTotals d s = Inr s' \<longrightarrow> meals s' = meals s) \<and>
   (\<forall>a xs. mealsFor ms d = Some a \<and> deref h a = Some xs \<longrightarrow>
      stored (array_push a m h) ms d = Some (xs @ [m]))"
  by (auto simp: mealsFor_def stored_def array_push_def deref_def dest: calculateTotals_meals
      split: if_splits)

theorem meals_read_is_stored_array_witness:
  "stored initialHeap initialMealsRef (str ''tuesday'') = deref initialHeap 1 \<and>
   stored (array_push 1 lunch initialHeap) initialMealsRef (str ''tuesday'') = Some [lunch]"
proof -
  have m: "mealsFor initialMealsRef (str ''tuesday'') = Some 1"
    by (simp add: mealsFor_def initialMealsRef_def str_def)
  have h: "deref initialHeap 1 = Some []"
    by (simp add: deref_def initialHeap_def)
  show ?thesis
    using meals_read_is_stored_array [of initialMealsRef "str ''tuesday''" initialHeap lunch] m h
    by auto
qed

end
